theory Spec2Isabelle
  imports Main "HOL-Library.Word"
begin

unbundle bit_operations_syntax

section \<open>The log store of \<open>src/core/include/logstore.h\<close>\<close>

subsection \<open>Machine integers, configuration and state\<close>

type_synonym u32 = "32 word"
type_synonym u64 = "64 word"

text \<open>
  The two template parameters of \<open>log_store\<close> and the n-gram width. The header that
  defines \<open>NGRAM_N\<close> (\<open>ngram_idx.h\<close>) is not among the sources, so the width is a
  parameter; it enters 32-bit arithmetic (\<open>value_end - NGRAM_N\<close>) as an unsigned int.
\<close>

record config =
  MAX_KEYS :: u32
  LOG_SIZE :: u32
  NGRAM_N :: nat

text \<open>
  The members of \<open>log_store\<close>. \<open>data_log\<close> is the array \<open>new char[LOG_SIZE]\<close>: its
  elements are the addresses below \<open>LOG_SIZE\<close>, and an access at any other address is
  outside the object. The offset table and the delete table are arrays indexed by the
  internal key. The n-gram index maps a gram to its posting list.
\<close>

type_synonym ngram_index = "string \<Rightarrow> u32 list"

record log_store =
  data_log :: "nat \<Rightarrow> char"
  write_tail :: u64
  read_tail :: u64
  value_offsets :: "u32 \<Rightarrow> u32"
  deleted :: "u32 \<Rightarrow> u32"
  index_log :: ngram_index

text \<open>
  What an operation can end in besides returning: \<open>StoreFull\<close> is the source's
  \<open>throw -1\<close>; \<open>OutOfBounds\<close> is an access outside the accessed object, where C++
  defines no behaviour.
\<close>

datatype error = StoreFull | OutOfBounds

definition NUL :: char where
  "NUL = CHR 0x00"

definition KEY_INCR :: u64 where
  "KEY_INCR = push_bit 32 1"

definition DEL_INCR :: u64 where
  "DEL_INCR = 1"

text \<open>The constructor: both tails are 0; the arrays start with whatever they hold.\<close>

definition log_store_init :: "(nat \<Rightarrow> char) \<Rightarrow> (u32 \<Rightarrow> u32) \<Rightarrow> (u32 \<Rightarrow> u32) \<Rightarrow> log_store" where
  "log_store_init mem offs dels =
     \<lparr>data_log = mem, write_tail = 0, read_tail = 0,
      value_offsets = offs, deleted = dels, index_log = (\<lambda>g. [])\<rparr>"

text \<open>\<open>tail >> 32\<close> and \<open>tail & 0xFFFFFFFF\<close>, each stored in a \<open>uint32_t\<close>.\<close>

definition tail_key :: "u64 \<Rightarrow> u32" where
  "tail_key t = ucast (drop_bit 32 t)"

definition tail_off :: "u64 \<Rightarrow> u32" where
  "tail_off t = ucast (t AND 0xFFFFFFFF)"

definition increment_tail :: "u32 \<Rightarrow> u64" where
  "increment_tail value_length = KEY_INCR OR ucast value_length"

text \<open>\<open>std::atomic_fetch_add\<close>: the old tail is returned.\<close>

definition atomic_advance_write_tail :: "u64 \<Rightarrow> log_store \<Rightarrow> u64 \<times> log_store" where
  "atomic_advance_write_tail tail_increment s =
     (write_tail s, s\<lparr>write_tail := write_tail s + tail_increment\<rparr>)"

text \<open>
  The loop around \<open>std::atomic_compare_exchange_weak\<close>, run by one thread: the exchange
  stores \<open>expected + increment\<close> when the read tail equals \<open>expected\<close>, and otherwise
  loads the read tail into \<open>expected\<close>, so the next round succeeds.
\<close>

function atomic_advance_read_tail :: "u64 \<Rightarrow> u64 \<Rightarrow> log_store \<Rightarrow> log_store" where
  "atomic_advance_read_tail expected_append_tail tail_increment s =
     (if read_tail s = expected_append_tail
      then s\<lparr>read_tail := expected_append_tail + tail_increment\<rparr>
      else atomic_advance_read_tail (read_tail s) tail_increment s)"
  by pat_completeness auto
termination
  by (relation "measure (\<lambda>(e, i, s). if read_tail s = e then 0 else 1)") auto

subsection \<open>The tables and the index\<close>

text \<open>
  Modelled from the spec: \<open>kvmap.h\<close> is not among the sources. The delete table's
  \<open>update(i, token)\<close> is the conditional write "set 0 to t": it succeeds only if the
  current marker is 0.
\<close>

definition deleted_offsets_update :: "(u32 \<Rightarrow> u32) \<Rightarrow> u32 \<Rightarrow> u32 \<Rightarrow> bool \<times> (u32 \<Rightarrow> u32)" where
  "deleted_offsets_update d i token = (if d i = 0 then (True, d(i := token)) else (False, d))"

text \<open>
  Modelled from the spec: \<open>ngram_idx.h\<close> is not among the sources. \<open>add_offset(p, o)\<close>
  appends \<open>o\<close> to the posting list of the \<open>N\<close> bytes at \<open>p\<close>; \<open>get_offsets(p)\<close> is
  the posting list of the \<open>N\<close> bytes at \<open>p\<close>.
\<close>

definition add_offset :: "ngram_index \<Rightarrow> string \<Rightarrow> u32 \<Rightarrow> ngram_index" where
  "add_offset idx g off = idx(g := idx g @ [off])"

definition get_offsets :: "ngram_index \<Rightarrow> string \<Rightarrow> u32 list" where
  "get_offsets idx g = idx g"

text \<open>The \<open>n\<close> bytes of the log at address \<open>a\<close>.\<close>

definition log_bytes :: "(nat \<Rightarrow> char) \<Rightarrow> nat \<Rightarrow> nat \<Rightarrow> string" where
  "log_bytes log a n = map log [a ..< a + n]"

text \<open>\<open>memcpy(data_log + a, bytes, length bytes)\<close>.\<close>

fun memcpy :: "(nat \<Rightarrow> char) \<Rightarrow> nat \<Rightarrow> string \<Rightarrow> (nat \<Rightarrow> char)" where
  "memcpy log a [] = log"
| "memcpy log a (c # cs) = memcpy (log(a := c)) (Suc a) cs"

subsection \<open>Append\<close>

text \<open>
  The index loop of \<open>internal_append\<close>:
  \<open>for (uint32_t i = value_offset; i <= value_end - NGRAM_N; i++)
     index_log->add_offset(data_log + i, i);\<close>
  with \<open>bound\<close> the value of \<open>value_end - NGRAM_N\<close>. \<open>add_offset\<close> reads the gram at
  \<open>data_log + i\<close>, which must lie in the log.
\<close>

function ngram_loop :: "config \<Rightarrow> (nat \<Rightarrow> char) \<Rightarrow> u32 \<Rightarrow> u32 \<Rightarrow> ngram_index \<Rightarrow> error + ngram_index" where
  "ngram_loop cfg log i bound idx =
     (if i \<le> bound then
        (if unat i < unat (LOG_SIZE cfg) \<and> unat i + NGRAM_N cfg \<le> unat (LOG_SIZE cfg)
         then ngram_loop cfg log (i + 1) bound
                (add_offset idx (log_bytes log (unat i) (NGRAM_N cfg)) i)
         else Inl OutOfBounds)
      else Inr idx)"
  by pat_completeness auto
termination
proof (relation "measure (\<lambda>(cfg, log, i, bound, idx). unat (LOG_SIZE cfg) - unat i)")
  show "wf (measure (\<lambda>(cfg, log, i, bound, idx). unat (LOG_SIZE cfg) - unat i))"
    by simp
next
  fix cfg :: config and log :: "nat \<Rightarrow> char" and i bound :: u32 and idx :: ngram_index
  assume "unat i < unat (LOG_SIZE cfg) \<and> unat i + NGRAM_N cfg \<le> unat (LOG_SIZE cfg)"
  then have lt: "i < LOG_SIZE cfg"
    by (simp add: word_less_nat_alt)
  then have "unat (i + 1) = Suc (unat i)"
    by unat_arith
  with lt show "((cfg, log, i + 1, bound,
                  add_offset idx (log_bytes log (unat i) (NGRAM_N cfg)) i),
                 (cfg, log, i, bound, idx))
        \<in> measure (\<lambda>(cfg, log, i, bound, idx). unat (LOG_SIZE cfg) - unat i)"
    by (simp add: word_less_nat_alt)
qed

text \<open>
  \<open>internal_append\<close>. The result is the tail the append saw, or the error; the store
  is returned in either case, since the write tail is advanced before the bounds check.
\<close>

definition internal_append :: "config \<Rightarrow> string \<Rightarrow> log_store \<Rightarrow> (error + u64) \<times> log_store" where
  "internal_append cfg v s =
     (let tail_increment = increment_tail (of_nat (length v));
          (current_tail, s1) = atomic_advance_write_tail tail_increment s;
          internal_key = tail_key current_tail;
          value_offset = tail_off current_tail;
          value_length = (of_nat (length v) :: u32)
      in if internal_key \<ge> MAX_KEYS cfg \<or> value_offset + value_length \<ge> LOG_SIZE cfg
         then (Inl StoreFull, s1)
         else
           let s2 = s1\<lparr>value_offsets := (value_offsets s1)(internal_key := value_offset),
                       deleted := (deleted s1)(internal_key := 0)\<rparr>
           in if unat value_offset + unat value_length > unat (LOG_SIZE cfg)
              then (Inl OutOfBounds, s2)
              else
                let s3 = s2\<lparr>data_log :=
                              memcpy (data_log s2) (unat value_offset) (take (unat value_length) v)\<rparr>;
                    value_end = value_offset + value_length
                in case ngram_loop cfg (data_log s3) value_offset
                          (value_end - of_nat (NGRAM_N cfg)) (index_log s3) of
                     Inl e \<Rightarrow> (Inl e, s3)
                   | Inr idx \<Rightarrow> (Inr current_tail, s3\<lparr>index_log := idx\<rparr>))"

text \<open>
  \<open>append\<close>: returns 0 for success. Its first parameter, the user's key, is unused in the
  source (the key mapping is commented out) and is left out.
\<close>

definition append_value :: "config \<Rightarrow> string \<Rightarrow> log_store \<Rightarrow> (error + int) \<times> log_store" where
  "append_value cfg v s =
     (case internal_append cfg v s of
        (Inl e, s1) \<Rightarrow> (Inl e, s1)
      | (Inr current_tail, s1) \<Rightarrow>
          let tail_increment = increment_tail (of_nat (length v))
          in (Inr 0, atomic_advance_read_tail current_tail tail_increment s1))"

subsection \<open>Get\<close>

text \<open>
  The copy loop of \<open>get\<close>:
  \<open>for (; i < end - start && data_ptr[i] != 0; i++) value[i] = data_ptr[i];\<close>
  with \<open>n\<close> the value of \<open>end - start\<close>; the result is the string left in \<open>value\<close>.
\<close>

function get_loop :: "config \<Rightarrow> (nat \<Rightarrow> char) \<Rightarrow> u32 \<Rightarrow> u32 \<Rightarrow> u32 \<Rightarrow> string \<Rightarrow> error + string" where
  "get_loop cfg log start n i acc =
     (if i < n then
        (if unat start + unat i < unat (LOG_SIZE cfg) then
           (if log (unat start + unat i) \<noteq> NUL
            then get_loop cfg log start n (i + 1) (acc @ [log (unat start + unat i)])
            else Inr acc)
         else Inl OutOfBounds)
      else Inr acc)"
  by pat_completeness auto
termination
proof (relation "measure (\<lambda>(cfg, log, start, n, i, acc). unat n - unat i)")
  show "wf (measure (\<lambda>(cfg, log, start, n, i, acc). unat n - unat i))"
    by simp
next
  fix cfg :: config and log :: "nat \<Rightarrow> char" and start n i :: u32 and acc :: string
  assume lt: "i < n"
  then have "unat (i + 1) = Suc (unat i)"
    by unat_arith
  with lt show "((cfg, log, start, n, i + 1, acc @ [log (unat start + unat i)]),
                 (cfg, log, start, n, i, acc))
        \<in> measure (\<lambda>(cfg, log, start, n, i, acc). unat n - unat i)"
    by (simp add: word_less_nat_alt)
qed

text \<open>\<open>get\<close>: \<open>Inr None\<close> is the return value -1, \<open>Inr (Some v)\<close> the return value 0 with
  \<open>v\<close> in the caller's buffer.\<close>

definition get :: "config \<Rightarrow> log_store \<Rightarrow> u32 \<Rightarrow> error + string option" where
  "get cfg s internal_key =
     (let current_tail = read_tail s;
          max_key = tail_key current_tail
      in if internal_key \<ge> max_key then Inr None
         else
           let delete_tail = deleted s internal_key;
               read_off = tail_off current_tail
           in if delete_tail \<noteq> 0 \<and> read_off \<ge> delete_tail then Inr None
              else
                let start = value_offsets s internal_key;
                    end_off = (if internal_key + 1 < max_key
                               then value_offsets s (internal_key + 1)
                               else tail_off current_tail)
                in case get_loop cfg (data_log s) start (end_off - start) 0 [] of
                     Inl e \<Rightarrow> Inl e
                   | Inr v \<Rightarrow> Inr (Some v))"

subsection \<open>Search\<close>

text \<open>
  The binary search of \<open>find_and_insert_key\<close>:
  \<open>while (lo < hi) { mid = lo + (hi - lo) / 2; v = value_offsets->get(mid);
     if (v <= offset) lo = mid + 1; else hi = mid; }\<close>
  The result is the final \<open>lo\<close>.
\<close>

function key_search :: "(u32 \<Rightarrow> u32) \<Rightarrow> u32 \<Rightarrow> u32 \<Rightarrow> u32 \<Rightarrow> u32" where
  "key_search offs offset lo hi =
     (if lo < hi then
        (let mid = lo + (hi - lo) div 2;
             v = offs mid
         in if v \<le> offset then key_search offs offset (mid + 1) hi
            else key_search offs offset lo mid)
      else lo)"
  by pat_completeness auto
termination
proof (relation "measure (\<lambda>(offs, offset, lo, hi). unat hi - unat lo)")
  show "wf (measure (\<lambda>(offs, offset, lo, hi). unat hi - unat lo))"
    by simp
next
  fix offs :: "u32 \<Rightarrow> u32" and offset lo hi mid v :: u32
  assume lt: "lo < hi" and mid: "mid = lo + (hi - lo) div 2"
  from lt have "lo \<le> hi"
    by simp
  then have d: "unat ((hi - lo) div 2) = (unat hi - unat lo) div 2"
    by (simp add: unat_div unat_sub)
  have hb: "unat hi < 2 ^ 32"
    using unsigned_less [of hi, where 'a = nat] by simp
  from lt have l: "unat lo < unat hi"
    by (simp add: word_less_nat_alt)
  from l hb have "unat lo + (unat hi - unat lo) div 2 < 2 ^ LENGTH(32)"
    by simp
  then have m: "unat mid = unat lo + (unat hi - unat lo) div 2"
    using d unfolding mid by (simp add: unat_add_lem [THEN iffD1])
  with l have mh: "unat mid < unat hi"
    by linarith
  then have "mid < hi"
    by (simp add: word_less_nat_alt)
  then have s: "unat (mid + 1) = Suc (unat mid)"
    by unat_arith
  from mh s show "((offs, offset, mid + 1, hi), (offs, offset, lo, hi))
        \<in> measure (\<lambda>(offs, offset, lo, hi). unat hi - unat lo)"
    using l m by simp linarith
  from mh show "((offs, offset, lo, mid), (offs, offset, lo, hi))
        \<in> measure (\<lambda>(offs, offset, lo, hi). unat hi - unat lo)"
    using l m by simp
qed

text \<open>
  \<open>find_and_insert_key\<close> for the result set of \<open>search\<close> (a \<open>std::set<int64_t>\<close>): the
  key is \<open>lo - 1\<close> in 32 bits; it is dropped when its delete marker is set and not
  above \<open>max_off\<close>, and inserted otherwise.
\<close>

definition find_and_insert_key :: "log_store \<Rightarrow> int set \<Rightarrow> u32 \<Rightarrow> u32 \<Rightarrow> u32 \<Rightarrow> int set" where
  "find_and_insert_key s keys offset max_key max_off =
     (let lo = key_search (value_offsets s) offset 0 max_key;
          internal_key = lo - 1;
          delete_tail = deleted s internal_key
      in if delete_tail \<noteq> 0 \<and> max_off \<ge> delete_tail then keys
         else insert (uint internal_key) keys)"

text \<open>
  \<open>!strncmp(data_log + a, q, n)\<close>: at most \<open>n\<close> characters are compared, up to the first
  difference or the first NUL. The address \<open>a\<close> is an integer since the source computes
  it as \<open>data_log - prefix_len + off\<close>; a character read outside the log is outside the
  object. \<open>q\<close> is what is left of the query, which its terminating NUL follows.
\<close>

fun strncmp_eq :: "config \<Rightarrow> (nat \<Rightarrow> char) \<Rightarrow> int \<Rightarrow> string \<Rightarrow> nat \<Rightarrow> error + bool" where
  "strncmp_eq cfg log a q 0 = Inr True"
| "strncmp_eq cfg log a q (Suc n) =
     (if a < 0 \<or> int (unat (LOG_SIZE cfg)) \<le> a then Inl OutOfBounds
      else
        let c1 = log (nat a);
            c2 = (case q of [] \<Rightarrow> NUL | c # cs \<Rightarrow> c)
        in if c1 \<noteq> c2 then Inr False
           else if c1 = NUL then Inr True
           else strncmp_eq cfg log (a + 1) (tl q) n)"

text \<open>
  The scan loop of \<open>search\<close>, the same in both branches:
  \<open>for (i = 0; i < size; i++) { off = offsets->at(i);
     if (off < max_off && !strncmp(data_ptr + off, pattern, len))
       find_and_insert_key(results, off, max_key, max_off); }\<close>
  with \<open>base\<close> the displacement of \<open>data_ptr\<close> from \<open>data_log\<close>.
\<close>

fun scan_offsets :: "config \<Rightarrow> log_store \<Rightarrow> int \<Rightarrow> string \<Rightarrow> nat \<Rightarrow> u32 \<Rightarrow> u32 \<Rightarrow> u32 list
    \<Rightarrow> int set \<Rightarrow> error + int set" where
  "scan_offsets cfg s base pat len max_key max_off [] results = Inr results"
| "scan_offsets cfg s base pat len max_key max_off (off # offs) results =
     (if off < max_off then
        (case strncmp_eq cfg (data_log s) (base + int (unat off)) pat len of
           Inl e \<Rightarrow> Inl e
         | Inr True \<Rightarrow>
             scan_offsets cfg s base pat len max_key max_off offs
               (find_and_insert_key s results off max_key max_off)
         | Inr False \<Rightarrow> scan_offsets cfg s base pat len max_key max_off offs results)
      else scan_offsets cfg s base pat len max_key max_off offs results)"

text \<open>
  \<open>search\<close>. The grams are read at \<open>substr\<close> and at \<open>substr + query.length() - NGRAM_N\<close>;
  for a query shorter than \<open>NGRAM_N\<close> the latter lies before the query. The list sizes
  are stored in a \<open>uint32_t\<close>. In the prefix branch \<open>data_ptr = data_log + NGRAM_N\<close>, in
  the suffix branch \<open>data_ptr = data_log - prefix_len\<close>.
\<close>

definition search :: "config \<Rightarrow> log_store \<Rightarrow> int set \<Rightarrow> string \<Rightarrow> error + int set" where
  "search cfg s results query =
     (let current_tail = read_tail s;
          max_key = tail_key current_tail;
          max_off = tail_off current_tail
      in if length query < NGRAM_N cfg then Inl OutOfBounds
         else
           let prefix_offsets = get_offsets (index_log s) (take (NGRAM_N cfg) query);
               suffix_offsets = get_offsets (index_log s)
                                  (drop (length query - NGRAM_N cfg) query)
           in if length prefix_offsets < length suffix_offsets then
                let suffix = drop (NGRAM_N cfg) query;
                    suffix_len = length query - NGRAM_N cfg;
                    size = (of_nat (length prefix_offsets) :: u32)
                in scan_offsets cfg s (int (NGRAM_N cfg)) suffix suffix_len max_key max_off
                     (take (unat size) prefix_offsets) results
              else
                let prefix = query;
                    prefix_len = length query - NGRAM_N cfg;
                    size = (of_nat (length suffix_offsets) :: u32)
                in scan_offsets cfg s (- int prefix_len) prefix prefix_len max_key max_off
                     (take (unat size) suffix_offsets) results)"

subsection \<open>Delete and update\<close>

definition invalidate_key :: "u32 \<Rightarrow> u32 \<Rightarrow> log_store \<Rightarrow> bool \<times> log_store" where
  "invalidate_key internal_key offset s =
     (case deleted_offsets_update (deleted s) internal_key offset of
        (ok, d) \<Rightarrow> (ok, s\<lparr>deleted := d\<rparr>))"

definition delete_record :: "config \<Rightarrow> u32 \<Rightarrow> log_store \<Rightarrow> (error + bool) \<times> log_store" where
  "delete_record cfg internal_key s =
     (let (current_tail, s1) = atomic_advance_write_tail DEL_INCR s;
          value_offset = tail_off current_tail
      in if value_offset + 1 \<ge> LOG_SIZE cfg then (Inl StoreFull, s1)
         else if ucast internal_key \<ge> drop_bit 32 current_tail then (Inr False, s1)
         else
           case invalidate_key internal_key (value_offset + 1) s1 of
             (True, s2) \<Rightarrow> (Inr True, atomic_advance_read_tail current_tail DEL_INCR s2)
           | (False, s2) \<Rightarrow> (Inr False, s2))"

text \<open>
  \<open>update_record\<close>. The token it passes to \<open>invalidate_key\<close> is written
  \<open>current_tail & 0xFFFFFFFF + 1\<close>; \<open>+\<close> binds tighter than \<open>&\<close>, and \<open>0xFFFFFFFF + 1\<close> is
  a sum of type unsigned int.
\<close>

definition update_record :: "config \<Rightarrow> u32 \<Rightarrow> string \<Rightarrow> log_store \<Rightarrow> (error + u32) \<times> log_store" where
  "update_record cfg internal_key v s =
     (case internal_append cfg v s of
        (Inl e, s1) \<Rightarrow> (Inl e, s1)
      | (Inr current_tail, s1) \<Rightarrow>
          let tail_increment = increment_tail (of_nat (length v));
              (ok, s2) = invalidate_key internal_key
                           (ucast (current_tail AND ucast ((0xFFFFFFFF :: u32) + 1))) s1;
              s3 = atomic_advance_read_tail current_tail tail_increment s2
          in (Inr (tail_key current_tail), s3))"

definition get_num_keys :: "log_store \<Rightarrow> u32" where
  "get_num_keys s = tail_key (read_tail s)"

definition get_size :: "log_store \<Rightarrow> u32" where
  "get_size s = tail_off (read_tail s)"

definition get_gap :: "log_store \<Rightarrow> u64" where
  "get_gap s = write_tail s - read_tail s"

section \<open>The versioned aggregate of \<open>aggregate.h\<close>\<close>

text \<open>
  An \<open>aggregate_node\<close> holds a value and a version; its \<open>next\<close> pointer is the rest of
  the list it heads. The \<open>numeric\<close> type and the \<open>aggregator\<close> (\<open>aggregate_ops.h\<close>)
  are not among the sources: a value is of any type, and an aggregator is its three
  members.
\<close>

record 'a aggregate_node =
  node_value :: 'a
  node_version :: u64

record 'a aggregator =
  zero :: 'a
  seq_op :: "'a \<Rightarrow> 'a \<Rightarrow> 'a"
  comb_op :: "'a \<Rightarrow> 'a \<Rightarrow> 'a"

record 'a aggregate_list =
  head :: "'a aggregate_node list"
  agg :: "'a aggregator"

text \<open>
  The loop of \<open>get_node\<close>, with its variables \<open>ret\<close> and \<open>max_version\<close>:
  \<open>while (node != nullptr) { if (node->version() == version) return node;
     if (node->version() < version && node->version() > max_version)
       { ret = node; max_version = node->version(); }
     node = node->next(); } return ret;\<close>
\<close>

fun get_node_loop :: "'a aggregate_node list \<Rightarrow> u64 \<Rightarrow> 'a aggregate_node option \<Rightarrow> u64
    \<Rightarrow> 'a aggregate_node option" where
  "get_node_loop [] version ret max_version = ret"
| "get_node_loop (node # rest) version ret max_version =
     (if node_version node = version then Some node
      else if node_version node < version \<and> node_version node > max_version
      then get_node_loop rest version (Some node) (node_version node)
      else get_node_loop rest version ret max_version)"

definition get_node :: "'a aggregate_node list \<Rightarrow> u64 \<Rightarrow> 'a aggregate_node option" where
  "get_node hd_nodes version =
     (if hd_nodes = [] then None else get_node_loop hd_nodes version None 0)"

definition aggregate_list_get :: "'a aggregate_list \<Rightarrow> u64 \<Rightarrow> 'a" where
  "aggregate_list_get l version =
     (case get_node (head l) version of
        Some req \<Rightarrow> node_value req
      | None \<Rightarrow> zero (agg l))"

definition aggregate_list_comb_update :: "'a \<Rightarrow> u64 \<Rightarrow> 'a aggregate_list \<Rightarrow> 'a aggregate_list" where
  "aggregate_list_comb_update v version l =
     (let cur_head = head l;
          old_agg = (case get_node cur_head version of
                       None \<Rightarrow> zero (agg l) | Some req \<Rightarrow> node_value req);
          node = \<lparr>node_value = comb_op (agg l) old_agg v, node_version = version\<rparr>
      in l\<lparr>head := node # cur_head\<rparr>)"

definition aggregate_list_seq_update :: "'a \<Rightarrow> u64 \<Rightarrow> 'a aggregate_list \<Rightarrow> 'a aggregate_list" where
  "aggregate_list_seq_update v version l =
     (let cur_head = head l;
          old_agg = (case get_node cur_head version of
                       None \<Rightarrow> zero (agg l) | Some req \<Rightarrow> node_value req);
          node = \<lparr>node_value = seq_op (agg l) old_agg v, node_version = version\<rparr>
      in l\<lparr>head := node # cur_head\<rparr>)"

text \<open>
  The \<open>aggregate\<close>: one list per thread, \<open>thread_manager::get_max_concurrency()\<close> of
  them. An index outside the array \<open>aggs\<close> is outside the object.
\<close>

record 'a aggregate =
  aggregate_agg :: "'a aggregator"
  aggs :: "'a aggregate_list list"

definition aggregate_init :: "'a aggregator \<Rightarrow> nat \<Rightarrow> 'a aggregate" where
  "aggregate_init a max_concurrency =
     \<lparr>aggregate_agg = a, aggs = replicate max_concurrency \<lparr>head = [], agg = a\<rparr>\<rparr>"

definition aggregate_seq_update :: "int \<Rightarrow> 'a \<Rightarrow> u64 \<Rightarrow> 'a aggregate \<Rightarrow> error + 'a aggregate" where
  "aggregate_seq_update thread_id v version a =
     (if 0 \<le> thread_id \<and> nat thread_id < length (aggs a)
      then Inr (a\<lparr>aggs := (aggs a)[nat thread_id :=
                  aggregate_list_seq_update v version (aggs a ! nat thread_id)]\<rparr>)
      else Inl OutOfBounds)"

definition aggregate_comb_update :: "int \<Rightarrow> 'a \<Rightarrow> u64 \<Rightarrow> 'a aggregate \<Rightarrow> error + 'a aggregate" where
  "aggregate_comb_update thread_id v version a =
     (if 0 \<le> thread_id \<and> nat thread_id < length (aggs a)
      then Inr (a\<lparr>aggs := (aggs a)[nat thread_id :=
                  aggregate_list_comb_update v version (aggs a ! nat thread_id)]\<rparr>)
      else Inl OutOfBounds)"

text \<open>\<open>aggregate::get\<close>: the lists are folded with \<open>comb_op\<close>, starting from \<open>zero\<close>.\<close>

definition aggregate_get :: "'a aggregate \<Rightarrow> u64 \<Rightarrow> 'a" where
  "aggregate_get a version =
     foldl (\<lambda>val l. comb_op (aggregate_agg a) val (aggregate_list_get l version))
       (zero (aggregate_agg a)) (aggs a)"

section \<open>Runs of the store\<close>

text \<open>
  A sequence of appends by one caller, stopped at the first one that does not return 0.
  The keys are the internal keys the appends claimed (\<open>current_tail >> 32\<close> in
  \<open>internal_append\<close>).
\<close>

fun append_all :: "config \<Rightarrow> string list \<Rightarrow> log_store \<Rightarrow> (error + u32 list) \<times> log_store" where
  "append_all cfg [] s = (Inr [], s)"
| "append_all cfg (v # vs) s =
     (case append_value cfg v s of
        (Inl e, s1) \<Rightarrow> (Inl e, s1)
      | (Inr r, s1) \<Rightarrow>
          (case append_all cfg vs s1 of
             (Inl e, s2) \<Rightarrow> (Inl e, s2)
           | (Inr ks, s2) \<Rightarrow> (Inr (tail_key (write_tail s) # ks), s2)))"

text \<open>
  The invariant of such a run, for the values appended so far: \<open>value_start vs j\<close> is
  the offset at which the value \<open>j\<close> starts; both tails hold the number of values and
  their total length, and every key has its offset, a clear delete marker and its bytes
  in the log.
\<close>

definition value_start :: "string list \<Rightarrow> nat \<Rightarrow> nat" where
  "value_start vs j = sum_list (map length (take j vs))"

definition appended :: "config \<Rightarrow> string list \<Rightarrow> log_store \<Rightarrow> bool" where
  "appended cfg vs s \<longleftrightarrow>
     write_tail s = read_tail s \<and>
     unat (tail_key (write_tail s)) = length vs \<and>
     unat (tail_off (write_tail s)) = value_start vs (length vs) \<and>
     value_start vs (length vs) \<le> unat (LOG_SIZE cfg) \<and>
     (\<forall>j < length vs.
        value_offsets s (of_nat j) = of_nat (value_start vs j) \<and>
        deleted s (of_nat j) = 0 \<and>
        log_bytes (data_log s) (value_start vs j) (length (vs ! j)) = vs ! j)"

text \<open>
  A run of operations by one caller. A caller that catches the exception of a full
  store goes on with the store as the operation left it; after an access outside an
  object nothing is defined, and the run has no final state.
\<close>

datatype op = Append string | Delete u32 | Update u32 string

definition outcome :: "error + 'a \<Rightarrow> error option" where
  "outcome r = (case r of Inl e \<Rightarrow> Some e | Inr x \<Rightarrow> None)"

fun apply_op :: "config \<Rightarrow> op \<Rightarrow> log_store \<Rightarrow> error option \<times> log_store" where
  "apply_op cfg (Append v) s = (case append_value cfg v s of (r, s') \<Rightarrow> (outcome r, s'))"
| "apply_op cfg (Delete k) s = (case delete_record cfg k s of (r, s') \<Rightarrow> (outcome r, s'))"
| "apply_op cfg (Update k v) s = (case update_record cfg k v s of (r, s') \<Rightarrow> (outcome r, s'))"

fun run :: "config \<Rightarrow> op list \<Rightarrow> log_store \<Rightarrow> log_store option" where
  "run cfg [] s = Some s"
| "run cfg (x # xs) s =
     (case apply_op cfg x s of
        (Some OutOfBounds, s') \<Rightarrow> None
      | (r, s') \<Rightarrow> run cfg xs s')"

text \<open>
  What a run claims from the write tail: one key for an append or an update, the
  value's length in bytes for them and one byte for a delete.
\<close>

fun op_keys :: "op \<Rightarrow> nat" where
  "op_keys (Append v) = 1"
| "op_keys (Delete k) = 0"
| "op_keys (Update k v) = 1"

fun op_bytes :: "op \<Rightarrow> nat" where
  "op_bytes (Append v) = length v"
| "op_bytes (Delete k) = 1"
| "op_bytes (Update k v) = length v"

definition claimed_keys :: "op list \<Rightarrow> nat" where
  "claimed_keys ops = sum_list (map op_keys ops)"

definition claimed_bytes :: "op list \<Rightarrow> nat" where
  "claimed_bytes ops = sum_list (map op_bytes ops)"

text \<open>
  The invariant of a run: the read tail is behind the write tail in both fields; if it
  is behind in keys, the store is full for good; the offsets of the readable keys are
  sorted and not above the write tail's offset.
\<close>

definition store_inv :: "config \<Rightarrow> log_store \<Rightarrow> bool" where
  "store_inv cfg s \<longleftrightarrow>
     (let wk = unat (tail_key (write_tail s)); wo = unat (tail_off (write_tail s));
          rk = unat (tail_key (read_tail s)); ro = unat (tail_off (read_tail s))
      in rk \<le> wk \<and> ro \<le> wo \<and>
         (rk < wk \<longrightarrow> unat (MAX_KEYS cfg) < wk \<or> unat (LOG_SIZE cfg) \<le> wo) \<and>
         (\<forall>i j. unat i \<le> unat j \<and> unat j < rk \<longrightarrow>
            unat (value_offsets s i) \<le> unat (value_offsets s j)) \<and>
         (\<forall>i. unat i < rk \<longrightarrow> unat (value_offsets s i) \<le> wo))"

section \<open>Scenarios\<close>

text \<open>
  The configurations of the scenarios: the template's default sizes with the typical
  n-gram width 3, and the boundary scenario's log of 16 bytes.
\<close>

definition default_cfg :: config where
  "default_cfg = \<lparr>MAX_KEYS = 134217728, LOG_SIZE = 4294967295, NGRAM_N = 3\<rparr>"

definition boundary_cfg :: config where
  "boundary_cfg = \<lparr>MAX_KEYS = 134217728, LOG_SIZE = 16, NGRAM_N = 3\<rparr>"

text \<open>A new store whose arrays hold zeros, and the store after two appends.\<close>

definition empty_store :: log_store where
  "empty_store = log_store_init (\<lambda>a. NUL) (\<lambda>i. 0) (\<lambda>i. 0)"

definition banana_store :: log_store where
  "banana_store =
     snd (append_value default_cfg ''bandana''
            (snd (append_value default_cfg ''banana'' empty_store)))"

text \<open>
  The aggregator "sum" of the aggregate scenario: \<open>seq_op = comb_op = +\<close>, \<open>zero = 0\<close>.
\<close>

definition sum_aggregator :: "int aggregator" where
  "sum_aggregator = \<lparr>zero = 0, seq_op = (+), comb_op = (+)\<rparr>"

section \<open>Properties\<close>

declare ngram_loop.simps [simp del]
declare get_loop.simps [simp del]
declare key_search.simps [simp del]
declare atomic_advance_read_tail.simps [simp del]

subsection \<open>The packed tail word\<close>

lemma unat_u64_less: "unat (t :: u64) < 2 ^ 64"
  using unsigned_less [of t, where 'a = nat] by simp

lemma unat_u32_less: "unat (l :: u32) < 2 ^ 32"
  using unsigned_less [of l, where 'a = nat] by simp

lemma unat_tail_key: "unat (tail_key t) = unat t div 2 ^ 32"
proof -
  have "unat t div 2 ^ 32 < 2 ^ 32"
    using unat_u64_less [of t] by (simp add: less_mult_imp_div_less)
  then show ?thesis
    by (simp add: tail_key_def unsigned_ucast_eq take_bit_eq_mod unat_div drop_bit_eq_div)
qed

lemma mask32: "(0xFFFFFFFF :: u64) = mask 32"
  by (simp add: mask_eq_exp_minus_1)

lemma unat_tail_off: "unat (tail_off t) = unat t mod 2 ^ 32"
  unfolding tail_off_def mask32
  by (simp add: unsigned_ucast_eq take_bit_eq_mod unat_mod flip: take_bit_eq_mask)

lemma unat_KEY_INCR: "unat KEY_INCR = 2 ^ 32"
  by (simp add: KEY_INCR_def)

lemma unat_increment_tail: "unat (increment_tail l) = 2 ^ 32 + unat l"
proof -
  have l: "unat (ucast l :: u64) = unat l"
    using unat_u32_less [of l] by (simp add: unsigned_ucast_eq take_bit_eq_mod)
  have "unat (KEY_INCR OR ucast l) = unat KEY_INCR OR unat (ucast l :: u64)"
    by (simp only: unsigned_or_eq)
  also have "\<dots> = 2 ^ 32 OR unat l"
    by (simp only: l unat_KEY_INCR)
  also have "\<dots> = 2 ^ 32 + unat l"
  proof (rule disjunctive_add [symmetric])
    fix n
    show "\<not> bit ((2::nat) ^ 32) n \<or> \<not> bit (unat l) n"
    proof (cases "n = 32")
      case True
      have "\<not> bit l 32"
        using bit_imp_le_length [of l 32] by auto
      with True show ?thesis
        by (simp only: bit_unsigned_iff) simp
    next
      case False
      then show ?thesis
        by (simp only: bit_exp_iff) simp
    qed
  qed
  finally show ?thesis
    by (simp add: increment_tail_def)
qed

lemma tail_split: "unat t = unat (tail_key t) * 2 ^ 32 + unat (tail_off t)"
  by (simp add: unat_tail_key unat_tail_off)

lemma tail_off_append: "tail_off (t + increment_tail l) = tail_off t + l"
proof -
  have "(unat t + (2 ^ 32 + unat l)) mod 2 ^ 64 mod 2 ^ 32 = (unat t + (2 ^ 32 + unat l)) mod 2 ^ 32"
    by (rule mod_mod_cancel) simp
  also have "\<dots> = (unat t + unat l) mod 2 ^ 32"
    by (metis add.left_commute mod_add_self1)
  also have "\<dots> = (unat t mod 2 ^ 32 + unat l) mod 2 ^ 32"
    by (simp add: mod_add_left_eq)
  finally have "unat (tail_off (t + increment_tail l)) = unat (tail_off t + l)"
    by (simp add: unat_tail_off unat_word_ariths unat_increment_tail)
  then show ?thesis by (simp add: word_unat_eq_iff)
qed

lemma tail_key_append:
  assumes "unat (tail_off t) + unat l < 2 ^ 32" "unat (tail_key t) + 1 < 2 ^ 32"
  shows "tail_key (t + increment_tail l) = tail_key t + 1"
proof -
  let ?k = "unat (tail_key t)" and ?o = "unat (tail_off t)"
  have t: "unat t = ?k * 2 ^ 32 + ?o"
    by (rule tail_split)
  have s: "unat t + (2 ^ 32 + unat l) = (?k + 1) * 2 ^ 32 + (?o + unat l)"
    by (simp add: t)
  have "(?k + 1) * 2 ^ 32 + (?o + unat l) < 2 ^ 64"
  proof -
    have "(?k + 1) * 2 ^ 32 \<le> (2 ^ 32 - 1) * (2 ^ 32 :: nat)"
      using assms(2) by (intro mult_le_mono1) simp
    with assms(1) show ?thesis by simp
  qed
  then have "unat (t + increment_tail l) = (?k + 1) * 2 ^ 32 + (?o + unat l)"
    by (simp only: unat_word_ariths unat_increment_tail s) simp
  then have "unat (tail_key (t + increment_tail l)) = ?k + 1"
    using assms(1) by (simp add: unat_tail_key)
  also have "\<dots> = unat (tail_key t + 1)"
    using assms(2) by (simp add: unat_word_ariths)
  finally show ?thesis by (simp add: word_unat_eq_iff)
qed

lemma tail_off_delete: "tail_off (t + DEL_INCR) = tail_off t + 1"
proof -
  have "(unat t + 1) mod 2 ^ 64 mod 2 ^ 32 = (unat t + 1) mod 2 ^ 32"
    by (rule mod_mod_cancel) simp
  also have "\<dots> = (unat t mod 2 ^ 32 + 1) mod 2 ^ 32"
    by (simp only: mod_add_left_eq)
  finally have "unat (tail_off (t + DEL_INCR)) = unat (tail_off t + 1)"
    by (simp only: unat_tail_off unat_word_ariths DEL_INCR_def unat_1) simp
  then show ?thesis by (simp add: word_unat_eq_iff)
qed

lemma tail_key_delete:
  assumes "unat (tail_off t) + 1 < 2 ^ 32"
  shows "tail_key (t + DEL_INCR) = tail_key t"
proof -
  let ?k = "unat (tail_key t)" and ?o = "unat (tail_off t)"
  have t: "unat t = ?k * 2 ^ 32 + ?o"
    by (rule tail_split)
  have "?k * 2 ^ 32 \<le> (2 ^ 32 - 1) * (2 ^ 32 :: nat)"
    using unat_u32_less [of "tail_key t"] by (intro mult_le_mono1) simp
  with assms have "unat t + 1 < 2 ^ 64"
    unfolding t by simp
  then have "unat (t + DEL_INCR) = ?k * 2 ^ 32 + (?o + 1)"
    by (simp add: unat_word_ariths DEL_INCR_def t)
  then have "unat (tail_key (t + DEL_INCR)) = ?k"
    using assms by (simp add: unat_tail_key)
  then show ?thesis by (simp add: word_unat_eq_iff)
qed


lemma tail_numerals:
  "tail_key 0 = 0" "tail_off 0 = 0"
  "tail_key 0x10000000A = 1" "tail_off 0x10000000A = 10"
  "tail_key 0x200000010 = 2" "tail_off 0x200000010 = 16"
  "tail_key 0x100000006 = 1" "tail_off 0x100000006 = 6"
  "tail_key 0x20000000D = 2" "tail_off 0x20000000D = 13"
  "tail_key 0x20000000E = 2" "tail_off 0x20000000E = 14"
  "tail_key 0x300000013 = 3" "tail_off 0x300000013 = 19"
  by (simp_all add: tail_key_def tail_off_def)

lemma of_nat_unat_u32: "(of_nat (unat (w :: u32)) :: u32) = w"
  by simp

lemma unat_of_nat_u32: "n < 2 ^ 32 \<Longrightarrow> unat (of_nat n :: u32) = n"
  by (simp add: unat_of_nat)

lemma unat_minus_1_u32: "unat (- 1 :: u32) = 4294967295"
  by (simp add: unsigned_minus_1_eq_mask mask_eq_exp_minus_1)

subsection \<open>The loops in closed form\<close>

lemma advance_read_tail_eq:
  "atomic_advance_read_tail e inc s = s\<lparr>read_tail := read_tail s + inc\<rparr>"
  by (subst atomic_advance_read_tail.simps, subst atomic_advance_read_tail.simps) simp

lemma memcpy_apply:
  "memcpy log a bs x = (if a \<le> x \<and> x < a + length bs then bs ! (x - a) else log x)"
proof (induction bs arbitrary: log a)
  case Nil
  then show ?case by auto
next
  case (Cons c cs)
  show ?case
    by (simp only: memcpy.simps Cons.IH) (auto simp: nth_Cons')
qed

lemma log_bytes_memcpy_same: "log_bytes (memcpy log a bs) a (length bs) = bs"
  by (rule nth_equalityI) (simp_all add: log_bytes_def memcpy_apply)

lemma log_bytes_memcpy_other:
  "b + n \<le> a \<or> a + length bs \<le> b \<Longrightarrow> log_bytes (memcpy log a bs) b n = log_bytes log b n"
  by (rule nth_equalityI) (auto simp: log_bytes_def memcpy_apply)

lemma unat_succ: "(i :: u32) < n \<Longrightarrow> unat (i + 1) = Suc (unat i)"
  by unat_arith

lemma ngram_loop_ok:
  "unat bound < unat (LOG_SIZE cfg) \<Longrightarrow> unat bound + NGRAM_N cfg \<le> unat (LOG_SIZE cfg) \<Longrightarrow>
   ngram_loop cfg log i bound idx =
     Inr (foldl (\<lambda>idx j. add_offset idx (log_bytes log j (NGRAM_N cfg)) (of_nat j)) idx
            [unat i ..< Suc (unat bound)])"
proof (induction cfg log i bound idx rule: ngram_loop.induct)
  case (1 cfg log i bound idx)
  show ?case
  proof (cases "i \<le> bound")
    case True
    then have le: "unat i \<le> unat bound"
      by (simp add: word_le_nat_alt)
    with "1.prems" have inb: "unat i < unat (LOG_SIZE cfg) \<and> unat i + NGRAM_N cfg \<le> unat (LOG_SIZE cfg)"
      by simp
    then have "i < LOG_SIZE cfg"
      by (simp add: word_less_nat_alt)
    then have s: "unat (i + 1) = Suc (unat i)"
      by (rule unat_succ)
    have u: "[unat i ..< Suc (unat bound)] = unat i # [Suc (unat i) ..< Suc (unat bound)]"
      using le by (simp add: upt_conv_Cons del: upt_Suc)
    show ?thesis
      using True inb "1.IH" [OF True inb "1.prems"]
      by (subst ngram_loop.simps) (simp add: s u del: upt_Suc)
  next
    case False
    then have "unat bound < unat i"
      by (simp add: word_le_nat_alt)
    with False show ?thesis
      by (subst ngram_loop.simps) (simp del: upt_Suc)
  qed
qed

lemma ngram_loop_overrun:
  "i \<le> bound \<Longrightarrow> unat (LOG_SIZE cfg) < unat bound + NGRAM_N cfg \<Longrightarrow>
   ngram_loop cfg log i bound idx = Inl OutOfBounds"
proof (induction cfg log i bound idx rule: ngram_loop.induct)
  case (1 cfg log i bound idx)
  show ?case
  proof (cases "unat i < unat (LOG_SIZE cfg) \<and> unat i + NGRAM_N cfg \<le> unat (LOG_SIZE cfg)")
    case True
    then have "i < LOG_SIZE cfg"
      by (simp add: word_less_nat_alt)
    then have s: "unat (i + 1) = Suc (unat i)"
      by (rule unat_succ)
    from True "1.prems" have "unat i < unat bound"
      by simp
    with s have "i + 1 \<le> bound"
      by (simp add: word_le_nat_alt)
    from "1.IH" [OF "1.prems"(1) True this "1.prems"(2)] True "1.prems"(1) show ?thesis
      by (subst ngram_loop.simps) simp
  next
    case False
    with "1.prems"(1) show ?thesis
      by (subst ngram_loop.simps) auto
  qed
qed

lemma get_loop_eq:
  "unat start + unat n \<le> unat (LOG_SIZE cfg) \<Longrightarrow> i \<le> n \<Longrightarrow>
   get_loop cfg log start n i acc =
     Inr (acc @ takeWhile (\<lambda>c. c \<noteq> NUL) (log_bytes log (unat start + unat i) (unat n - unat i)))"
proof (induction cfg log start n i acc rule: get_loop.induct)
  case (1 cfg log start n i acc)
  show ?case
  proof (cases "i < n")
    case True
    then have lt: "unat i < unat n"
      by (simp add: word_less_nat_alt)
    from True have s: "unat (i + 1) = Suc (unat i)"
      by (rule unat_succ)
    with lt have le: "i + 1 \<le> n"
      by (simp add: word_le_nat_alt)
    from lt "1.prems" have inb: "unat start + unat i < unat (LOG_SIZE cfg)"
      by simp
    have b: "log_bytes log (unat start + unat i) (unat n - unat i) =
        log (unat start + unat i) # log_bytes log (unat start + unat (i + 1)) (unat n - unat (i + 1))"
      using lt by (simp add: log_bytes_def s upt_conv_Cons)
    show ?thesis
    proof (cases "log (unat start + unat i) = NUL")
      case True
      with \<open>i < n\<close> inb show ?thesis
        by (subst get_loop.simps) (simp add: b)
    next
      case False
      with \<open>i < n\<close> inb "1.IH" [OF \<open>i < n\<close> inb False "1.prems"(1) le] show ?thesis
        by (subst get_loop.simps) (simp add: b)
    qed
  next
    case False
    with "1.prems" have "unat n - unat i = 0"
      by (simp add: word_le_nat_alt word_less_nat_alt)
    with False show ?thesis
      by (subst get_loop.simps) (simp add: log_bytes_def)
  qed
qed

lemma strncmp_eq_pos:
  "0 < n \<Longrightarrow> strncmp_eq cfg log a q n =
     (if a < 0 \<or> int (unat (LOG_SIZE cfg)) \<le> a then Inl OutOfBounds
      else
        let c1 = log (nat a);
            c2 = (case q of [] \<Rightarrow> NUL | c # cs \<Rightarrow> c)
        in if c1 \<noteq> c2 then Inr False
           else if c1 = NUL then Inr True
           else strncmp_eq cfg log (a + 1) (tl q) (n - 1))"
  by (cases n) (simp_all add: Let_def)


subsection \<open>The effect of an append\<close>

lemma internal_append_full:
  "MAX_KEYS cfg \<le> tail_key (write_tail s) \<or>
   LOG_SIZE cfg \<le> tail_off (write_tail s) + of_nat (length v) \<Longrightarrow>
   internal_append cfg v s =
     (Inl StoreFull, s\<lparr>write_tail := write_tail s + increment_tail (of_nat (length v))\<rparr>)"
  by (simp add: internal_append_def atomic_advance_write_tail_def Let_def)

lemma internal_append_ok:
  assumes k: "tail_key (write_tail s) < MAX_KEYS cfg"
    and len: "length v < 2 ^ 32"
    and fit: "unat (tail_off (write_tail s)) + length v < unat (LOG_SIZE cfg)"
    and n: "NGRAM_N cfg \<le> unat (tail_off (write_tail s)) + length v"
  shows "internal_append cfg v s =
     (Inr (write_tail s),
      s\<lparr>write_tail := write_tail s + increment_tail (of_nat (length v)),
        value_offsets := (value_offsets s)(tail_key (write_tail s) := tail_off (write_tail s)),
        deleted := (deleted s)(tail_key (write_tail s) := 0),
        data_log := memcpy (data_log s) (unat (tail_off (write_tail s))) v,
        index_log :=
          foldl (\<lambda>idx j. add_offset idx
                   (log_bytes (memcpy (data_log s) (unat (tail_off (write_tail s))) v) j (NGRAM_N cfg))
                   (of_nat j))
            (index_log s)
            [unat (tail_off (write_tail s)) ..<
             Suc (unat (tail_off (write_tail s)) + length v - NGRAM_N cfg)]\<rparr>)"
proof -
  let ?off = "tail_off (write_tail s)"
  let ?len = "of_nat (length v) :: u32"
  have ul: "unat ?len = length v"
    using len by (simp add: unat_of_nat)
  have lb: "unat (LOG_SIZE cfg) < 2 ^ 32"
    by (rule unat_u32_less)
  with fit have sum: "unat (?off + ?len) = unat ?off + length v"
    by (simp add: unat_word_ariths ul)
  with fit have chk: "\<not> LOG_SIZE cfg \<le> ?off + ?len"
    by (simp add: word_le_nat_alt)
  from n lb fit have un: "unat (of_nat (NGRAM_N cfg) :: u32) = NGRAM_N cfg"
    by (simp add: unat_of_nat)
  with n sum have "(of_nat (NGRAM_N cfg) :: u32) \<le> ?off + ?len"
    by (simp add: word_le_nat_alt)
  then have bound: "unat (?off + ?len - of_nat (NGRAM_N cfg)) = unat ?off + length v - NGRAM_N cfg"
    by (simp add: unat_sub sum un)
  have loop: "ngram_loop cfg log ?off (?off + ?len - of_nat (NGRAM_N cfg)) idx =
      Inr (foldl (\<lambda>idx j. add_offset idx (log_bytes log j (NGRAM_N cfg)) (of_nat j)) idx
            [unat ?off ..< Suc (unat ?off + length v - NGRAM_N cfg)])" for log idx
    using fit n by (subst ngram_loop_ok) (simp_all add: bound)
  from k have k': "\<not> MAX_KEYS cfg \<le> tail_key (write_tail s)"
    by simp
  show ?thesis
    using fit
    by (simp add: internal_append_def atomic_advance_write_tail_def Let_def k' chk ul loop
        del: upt_Suc)
qed

lemma append_value_full:
  "MAX_KEYS cfg \<le> tail_key (write_tail s) \<or>
   LOG_SIZE cfg \<le> tail_off (write_tail s) + of_nat (length v) \<Longrightarrow>
   append_value cfg v s =
     (Inl StoreFull, s\<lparr>write_tail := write_tail s + increment_tail (of_nat (length v))\<rparr>)"
  by (simp add: append_value_def internal_append_full)

lemma append_value_ok:
  assumes k: "tail_key (write_tail s) < MAX_KEYS cfg"
    and len: "length v < 2 ^ 32"
    and fit: "unat (tail_off (write_tail s)) + length v < unat (LOG_SIZE cfg)"
    and n: "NGRAM_N cfg \<le> unat (tail_off (write_tail s)) + length v"
  shows "append_value cfg v s =
     (Inr 0,
      s\<lparr>write_tail := write_tail s + increment_tail (of_nat (length v)),
        read_tail := read_tail s + increment_tail (of_nat (length v)),
        value_offsets := (value_offsets s)(tail_key (write_tail s) := tail_off (write_tail s)),
        deleted := (deleted s)(tail_key (write_tail s) := 0),
        data_log := memcpy (data_log s) (unat (tail_off (write_tail s))) v,
        index_log :=
          foldl (\<lambda>idx j. add_offset idx
                   (log_bytes (memcpy (data_log s) (unat (tail_off (write_tail s))) v) j (NGRAM_N cfg))
                   (of_nat j))
            (index_log s)
            [unat (tail_off (write_tail s)) ..<
             Suc (unat (tail_off (write_tail s)) + length v - NGRAM_N cfg)]\<rparr>)"
  by (simp add: append_value_def internal_append_ok [OF assms] advance_read_tail_eq Let_def
      del: upt_Suc)


subsection \<open>The scenarios, evaluated\<close>

lemma boundary_run:
  "(let s0 = log_store_init mem offs dels;
        (r1, s1) = append_value boundary_cfg ''abcdefghij'' s0;
        (r2, s2) = append_value boundary_cfg ''klmnop'' s1;
        (r3, s3) = append_value boundary_cfg ''q'' s2
    in tail_key (write_tail s0) = 0 \<and> r1 = Inr 0 \<and> get_num_keys s1 = 1 \<and>
       r2 = Inl StoreFull \<and> r3 = Inl StoreFull)"
proof -
  define s0 where "s0 = log_store_init mem offs dels"
  have w0: "write_tail s0 = 0" "read_tail s0 = 0"
    by (simp_all add: s0_def log_store_init_def)
  obtain s1 where a1: "append_value boundary_cfg ''abcdefghij'' s0 = (Inr 0, s1)"
    and w1: "write_tail s1 = 0x10000000A" "read_tail s1 = 0x10000000A"
    by (simp add: append_value_ok w0 tail_numerals boundary_cfg_def increment_tail_def
        KEY_INCR_def del: upt_Suc)
  obtain s2 where a2: "append_value boundary_cfg ''klmnop'' s1 = (Inl StoreFull, s2)"
    and w2: "write_tail s2 = 0x200000010"
    by (simp add: append_value_full w1 tail_numerals boundary_cfg_def increment_tail_def
        KEY_INCR_def)
  obtain s3 where a3: "append_value boundary_cfg ''q'' s2 = (Inl StoreFull, s3)"
    by (simp add: append_value_full w2 tail_numerals boundary_cfg_def)
  show ?thesis
    using a1 a2 a3 w0 w1
    by (simp add: s0_def [symmetric] Let_def get_num_keys_def tail_numerals)
qed

lemma banana_store_eq:
  "banana_store =
     \<lparr>data_log = memcpy (memcpy (\<lambda>a. NUL) 0 ''banana'') 6 ''bandana'',
      write_tail = 0x20000000D, read_tail = 0x20000000D,
      value_offsets = (\<lambda>i. 0)(0 := 0, 1 := 6),
      deleted = (\<lambda>i. 0)(0 := 0, 1 := 0),
      index_log = (\<lambda>g. [])(''ban'' := [0, 6], ''ana'' := [1, 3, 10], ''nan'' := [2],
         ''and'' := [7], ''nda'' := [8], ''dan'' := [9])\<rparr>"
  apply (simp add: banana_store_def empty_store_def log_store_init_def default_cfg_def
      append_value_ok tail_numerals increment_tail_def KEY_INCR_def
      del: upt_Suc memcpy.simps)
  apply (simp add: upt_conv_Cons add_offset_def log_bytes_def memcpy_apply del: memcpy.simps)
  apply (auto simp: fun_eq_iff)
  done

subsection \<open>Append at the boundary of the log\<close>

text \<open>
  C2 (as amended). With \<open>LOG_SIZE = 16\<close> and \<open>NGRAM_N = 3\<close>, from a new store whatever
  its arrays hold: the append of the 10 bytes \<open>abcdefghij\<close> claims key 0, returns 0 and
  leaves one readable key; the append of the 6 bytes \<open>klmnop\<close>, which would end exactly
  at offset 16, throws (the check is \<open>value_offset + value_length >= LOG_SIZE\<close>); and
  the append of \<open>q\<close> after it throws as well.
\<close>

theorem boundary_scenario:
  "(let s0 = log_store_init mem offs dels;
        (r1, s1) = append_value boundary_cfg ''abcdefghij'' s0;
        (r2, s2) = append_value boundary_cfg ''klmnop'' s1;
        (r3, s3) = append_value boundary_cfg ''q'' s2
    in tail_key (write_tail s0) = 0 \<and> r1 = Inr 0 \<and> get_num_keys s1 = 1 \<and>
       r2 = Inl StoreFull \<and> r3 = Inl StoreFull)"
  by (rule boundary_run)

text \<open>
  C2 (counterexample to the claim as stated). The second append of the scenario does
  not succeed: it ends in \<open>StoreFull\<close>.
\<close>

theorem boundary_second_append_is_full:
  "fst (append_value boundary_cfg ''klmnop''
          (snd (append_value boundary_cfg ''abcdefghij'' empty_store))) = Inl StoreFull"
  using boundary_run [of "\<lambda>a. NUL" "\<lambda>i. 0" "\<lambda>i. 0"]
  by (simp add: empty_store_def Let_def split: prod.splits)

subsection \<open>Update, delete and search at their failing inputs\<close>

text \<open>
  C1 (the code at the failing input). After \<open>banana\<close> and \<open>bandana\<close> are appended,
  \<open>update_record(1, orange)\<close> returns the new key 2, but the delete marker of key 1 is
  still 0 and \<open>get(1)\<close> still returns \<open>bandana\<close>: the token passed to \<open>invalidate_key\<close>
  is \<open>current_tail & (0xFFFFFFFF + 1)\<close>, which is 0.
\<close>

theorem update_record_keeps_old_key:
  "(let (r, s) = update_record default_cfg 1 ''orange'' banana_store
    in r = Inr 2 \<and> deleted s 1 = 0 \<and> get default_cfg s 1 = Inr (Some ''bandana''))"
  by (simp add: banana_store_eq update_record_def default_cfg_def internal_append_ok
      invalidate_key_def deleted_offsets_update_def advance_read_tail_eq tail_numerals
      increment_tail_def KEY_INCR_def get_def get_loop_eq log_bytes_def memcpy_apply
      upt_conv_Cons NUL_def Let_def word_le_nat_alt del: upt_Suc memcpy.simps)

text \<open>
  C4 (the code at the failing input). After \<open>banana\<close> and \<open>bandana\<close> are appended, the
  first \<open>delete_record(0)\<close> returns true and leaves the two tails equal; the second
  returns false and leaves the read tail where it was, one byte behind the write tail.
\<close>

theorem delete_record_loser_does_not_commit:
  "(let (r1, s1) = delete_record default_cfg 0 banana_store;
        (r2, s2) = delete_record default_cfg 0 s1
    in r1 = Inr True \<and> read_tail s1 = write_tail s1 \<and>
       r2 = Inr False \<and> read_tail s2 = read_tail s1 \<and> get_gap s2 = 1)"
  by (simp add: banana_store_eq delete_record_def default_cfg_def
      atomic_advance_write_tail_def invalidate_key_def deleted_offsets_update_def
      advance_read_tail_eq tail_numerals DEL_INCR_def get_gap_def Let_def)

text \<open>
  C5 (the code at the failing input). After \<open>banana\<close> and \<open>bandana\<close> are appended, the
  search for \<open>anaban\<close> scans the postings of its suffix gram \<open>ban\<close>, which are 0 and 6.
  The candidate 0 is below the prefix length 3 and is not rejected: the comparison reads
  \<open>data_log - 3\<close>, outside the log.
\<close>

theorem search_suffix_reads_before_log:
  "search default_cfg banana_store {} ''anaban'' = Inl OutOfBounds"
  by (simp add: banana_store_eq search_def default_cfg_def get_offsets_def tail_numerals
      Let_def strncmp_eq_pos)

text \<open>
  C10 (the code at the failing input). In a new store of 16 bytes the append of the 2
  bytes \<open>ab\<close> has \<open>value_end = 2\<close>, below \<open>NGRAM_N = 3\<close>: the loop bound
  \<open>value_end - NGRAM_N\<close> is \<open>0xFFFFFFFF\<close>, every \<open>i\<close> satisfies the loop condition,
  and the loop runs past the value until it reads outside the log.
\<close>

theorem ngram_loop_bound_wraps:
  "(tail_off (write_tail empty_store) + 2 - 3 :: u32) = 0xFFFFFFFF \<and>
   fst (internal_append boundary_cfg ''ab'' empty_store) = Inl OutOfBounds"
  by (simp add: internal_append_def boundary_cfg_def empty_store_def log_store_init_def
      atomic_advance_write_tail_def tail_numerals increment_tail_def KEY_INCR_def Let_def
      ngram_loop_overrun unat_minus_1_u32)

subsection \<open>Get after appends\<close>

lemma value_start_Suc:
  "j < length vs \<Longrightarrow> value_start vs (Suc j) = value_start vs j + length (vs ! j)"
  by (simp add: value_start_def take_Suc_conv_app_nth)

lemma value_start_mono: "i \<le> j \<Longrightarrow> value_start vs i \<le> value_start vs j"
proof (induction j)
  case 0
  then show ?case by simp
next
  case (Suc j)
  show ?case
  proof (cases "i = Suc j")
    case True
    then show ?thesis by simp
  next
    case False
    with Suc have le: "value_start vs i \<le> value_start vs j"
      by simp
    show ?thesis
    proof (cases "j < length vs")
      case True
      with le show ?thesis by (simp add: value_start_Suc)
    next
      case False
      with le show ?thesis by (simp add: value_start_def)
    qed
  qed
qed

lemma value_start_append:
  "j \<le> length vs \<Longrightarrow> value_start (vs @ [v]) j = value_start vs j"
  by (simp add: value_start_def)

lemma value_start_snoc:
  "value_start (vs @ [v]) (Suc (length vs)) = value_start vs (length vs) + length v"
  by (simp add: value_start_def)

lemma internal_append_InrD:
  assumes "internal_append cfg v s = (Inr t, s')"
  shows "t = write_tail s \<and>
     tail_key (write_tail s) < MAX_KEYS cfg \<and>
     unat (tail_off (write_tail s)) + unat (of_nat (length v) :: u32) \<le> unat (LOG_SIZE cfg) \<and>
     write_tail s' = write_tail s + increment_tail (of_nat (length v)) \<and>
     read_tail s' = read_tail s \<and>
     value_offsets s' = (value_offsets s)(tail_key (write_tail s) := tail_off (write_tail s)) \<and>
     deleted s' = (deleted s)(tail_key (write_tail s) := 0) \<and>
     data_log s' = memcpy (data_log s) (unat (tail_off (write_tail s)))
                     (take (unat (of_nat (length v) :: u32)) v)"
  using assms
  by (auto simp: internal_append_def atomic_advance_write_tail_def Let_def
      split: if_splits sum.splits)

lemma append_value_InrD:
  assumes "append_value cfg v s = (Inr r, s')"
  shows "tail_key (write_tail s) < MAX_KEYS cfg \<and>
     unat (tail_off (write_tail s)) + unat (of_nat (length v) :: u32) \<le> unat (LOG_SIZE cfg) \<and>
     write_tail s' = write_tail s + increment_tail (of_nat (length v)) \<and>
     read_tail s' = read_tail s + increment_tail (of_nat (length v)) \<and>
     value_offsets s' = (value_offsets s)(tail_key (write_tail s) := tail_off (write_tail s)) \<and>
     deleted s' = (deleted s)(tail_key (write_tail s) := 0) \<and>
     data_log s' = memcpy (data_log s) (unat (tail_off (write_tail s)))
                     (take (unat (of_nat (length v) :: u32)) v)"
proof -
  from assms obtain t s1 where ia: "internal_append cfg v s = (Inr t, s1)"
    and s': "s' = atomic_advance_read_tail t (increment_tail (of_nat (length v))) s1"
    by (auto simp: append_value_def Let_def split: prod.splits sum.splits)
  from internal_append_InrD [OF ia] show ?thesis
    by (simp add: s' advance_read_tail_eq)
qed

lemma appended_step:
  assumes inv: "appended cfg vs s"
    and len: "length v < 2 ^ 32"
    and ok: "append_value cfg v s = (Inr r, s')"
  shows "appended cfg (vs @ [v]) s' \<and> tail_key (write_tail s) = of_nat (length vs)"
proof -
  let ?n = "length vs" and ?T = "value_start vs (length vs)"
  let ?W = "write_tail s"
  note d = append_value_InrD [OF ok]
  have ul: "unat (of_nat (length v) :: u32) = length v"
    using len by (rule unat_of_nat_u32)
  from inv have wr: "write_tail s = read_tail s"
    and k: "unat (tail_key ?W) = ?n" and o: "unat (tail_off ?W) = ?T"
    and old: "\<forall>j < ?n. value_offsets s (of_nat j) = of_nat (value_start vs j) \<and>
        deleted s (of_nat j) = 0 \<and>
        log_bytes (data_log s) (value_start vs j) (length (vs ! j)) = vs ! j"
    by (auto simp: appended_def)
  have key: "tail_key ?W = of_nat ?n"
    using k of_nat_unat_u32 [of "tail_key ?W"] by simp
  have off: "tail_off ?W = of_nat ?T"
    using o of_nat_unat_u32 [of "tail_off ?W"] by simp
  from d have fit: "?T + length v \<le> unat (LOG_SIZE cfg)"
    by (simp add: o ul)
  have Lb: "unat (LOG_SIZE cfg) < 2 ^ 32" and Mb: "unat (MAX_KEYS cfg) < 2 ^ 32"
    by (rule unat_u32_less)+
  from d have "unat (tail_key ?W) < unat (MAX_KEYS cfg)"
    by (simp add: word_less_nat_alt)
  with k Mb have n1: "?n + 1 < 2 ^ 32"
    by simp
  from fit Lb have nw: "unat (tail_off ?W) + unat (of_nat (length v) :: u32) < 2 ^ 32"
    by (simp add: o ul)
  have k': "unat (tail_key (write_tail s')) = ?n + 1"
    using d tail_key_append [OF nw, of ] n1 k by (simp add: unat_word_ariths)
  have o': "unat (tail_off (write_tail s')) = ?T + length v"
    using d nw by (simp add: tail_off_append unat_word_ariths o ul)
  have new: "value_offsets s' (of_nat j) = of_nat (value_start (vs @ [v]) j) \<and>
        deleted s' (of_nat j) = 0 \<and>
        log_bytes (data_log s') (value_start (vs @ [v]) j) (length ((vs @ [v]) ! j)) = (vs @ [v]) ! j"
    if j: "j < Suc ?n" for j
  proof (cases "j = ?n")
    case True
    have "unat (of_nat ?T :: u32) = ?T"
      using o off by simp
    with True d show ?thesis
      by (simp add: key off ul value_start_append log_bytes_memcpy_same)
  next
    case False
    with j have jn: "j < ?n"
      by simp
    with n1 have "unat (of_nat j :: u32) = j"
      by (simp add: unat_of_nat_u32)
    with k jn have ne: "(of_nat j :: u32) \<noteq> tail_key ?W"
      by auto
    have "value_start vs j + length (vs ! j) \<le> ?T"
      using value_start_mono [of "Suc j" ?n vs] jn by (simp add: value_start_Suc)
    then have "log_bytes (data_log s') (value_start vs j) (length (vs ! j)) =
        log_bytes (data_log s) (value_start vs j) (length (vs ! j))"
      using d by (simp add: o log_bytes_memcpy_other)
    with old jn ne d show ?thesis
      by (simp add: value_start_append nth_append)
  qed
  from d wr k' o' fit new have "appended cfg (vs @ [v]) s'"
    by (simp add: appended_def value_start_snoc)
  with key show ?thesis
    by simp
qed

lemma appended_init: "appended cfg [] (log_store_init mem offs dels)"
  by (simp add: appended_def log_store_init_def value_start_def tail_numerals)

lemma append_all_appended:
  assumes "appended cfg us s"
    and "\<forall>v \<in> set vs. length v < 2 ^ 32"
    and "append_all cfg vs s = (Inr ks, s')"
  shows "appended cfg (us @ vs) s' \<and> ks = map of_nat [length us ..< length us + length vs]"
  using assms
proof (induction vs arbitrary: us s ks)
  case Nil
  then show ?case by simp
next
  case (Cons v vs)
  from Cons.prems(3) obtain r s1 ks' where a: "append_value cfg v s = (Inr r, s1)"
    and b: "append_all cfg vs s1 = (Inr ks', s')"
    and ks: "ks = tail_key (write_tail s) # ks'"
    by (auto split: prod.splits sum.splits)
  from Cons.prems(2) have len: "length v < 2 ^ 32"
    by simp
  from appended_step [OF Cons.prems(1) len a]
  have inv1: "appended cfg (us @ [v]) s1" and key: "tail_key (write_tail s) = of_nat (length us)"
    by simp_all
  from Cons.prems(2) have "\<forall>v \<in> set vs. length v < 2 ^ 32"
    by simp
  from Cons.IH [OF inv1 this b] ks key show ?case
    by (simp add: upt_conv_Cons del: upt_Suc)
qed

lemma appended_get:
  assumes inv: "appended cfg vs s" and j: "j < length vs"
  shows "get cfg s (of_nat j) = Inr (Some (takeWhile (\<lambda>c. c \<noteq> NUL) (vs ! j)))"
proof -
  let ?n = "length vs"
  from inv have wr: "write_tail s = read_tail s"
    and k: "unat (tail_key (read_tail s)) = ?n"
    and o: "unat (tail_off (read_tail s)) = value_start vs ?n"
    and fit: "value_start vs ?n \<le> unat (LOG_SIZE cfg)"
    and old: "\<forall>j < ?n. value_offsets s (of_nat j) = of_nat (value_start vs j) \<and>
        deleted s (of_nat j) = 0 \<and>
        log_bytes (data_log s) (value_start vs j) (length (vs ! j)) = vs ! j"
    by (auto simp: appended_def)
  have nb: "?n < 2 ^ 32"
    using k unat_u32_less [of "tail_key (read_tail s)"] by simp
  with j have uj: "unat (of_nat j :: u32) = j"
    by (simp add: unat_of_nat_u32)
  with j k have lt: "\<not> tail_key (read_tail s) \<le> (of_nat j :: u32)"
    by (simp add: word_le_nat_alt)
  have Lb: "unat (LOG_SIZE cfg) < 2 ^ 32"
    by (rule unat_u32_less)
  have sb: "value_start vs i < 2 ^ 32" if "i \<le> ?n" for i
    using value_start_mono [OF that, of vs] fit Lb by simp
  have s1: "value_start vs (Suc j) = value_start vs j + length (vs ! j)"
    using j by (rule value_start_Suc)
  have uj1: "unat (of_nat j + 1 :: u32) = Suc j"
    using j nb unat_of_nat_u32 [of "Suc j"] by (simp add: add.commute)
  have e: "(if (of_nat j :: u32) + 1 < tail_key (read_tail s)
            then value_offsets s (of_nat j + 1) else tail_off (read_tail s)) =
           of_nat (value_start vs (Suc j))"
  proof (cases "Suc j < ?n")
    case True
    with uj1 k have "(of_nat j :: u32) + 1 < tail_key (read_tail s)"
      by (simp add: word_less_nat_alt)
    moreover have "value_offsets s (of_nat j + 1) = of_nat (value_start vs (Suc j))"
      using old True by (metis of_nat_Suc add.commute semiring_1_class.of_nat_simps(2) Suc_eq_plus1 of_nat_add of_nat_1)
    ultimately show ?thesis
      by simp
  next
    case False
    with j have eq: "Suc j = ?n"
      by simp
    with uj1 k have "\<not> (of_nat j :: u32) + 1 < tail_key (read_tail s)"
      by (simp add: word_less_nat_alt)
    moreover have "tail_off (read_tail s) = of_nat (value_start vs (Suc j))"
      using o of_nat_unat_u32 [of "tail_off (read_tail s)"] eq by simp
    ultimately show ?thesis
      by simp
  qed
  define st :: u32 where "st = of_nat (value_start vs j)"
  define en :: u32 where "en = of_nat (value_start vs (Suc j))"
  have us: "unat st = value_start vs j"
    unfolding st_def using sb [of j] j by (simp add: unat_of_nat_u32)
  have ue: "unat en = value_start vs (Suc j)"
    unfolding en_def using sb [of "Suc j"] j by (simp add: unat_of_nat_u32)
  have "st \<le> en"
    by (simp add: word_le_nat_alt us ue s1)
  then have n: "unat (en - st) = length (vs ! j)"
    by (simp add: unat_sub us ue s1)
  have inb: "unat st + unat (en - st) \<le> unat (LOG_SIZE cfg)"
    using value_start_mono [of "Suc j" ?n vs] j fit by (simp add: us n s1)
  have loop: "get_loop cfg (data_log s) st (en - st) 0 [] =
      Inr (takeWhile (\<lambda>c. c \<noteq> NUL) (vs ! j))"
    using old j by (subst get_loop_eq [OF inb]) (simp_all add: us n)
  from old j have st: "value_offsets s (of_nat j) = st"
    and dl: "deleted s (of_nat j) = 0"
    by (simp_all add: st_def)
  show ?thesis
    unfolding get_def Let_def
    by (simp only: lt e st dl loop en_def [symmetric] if_False simp_thms sum.case)
qed

text \<open>
  C3 (as amended). For every sequence of appends to a new store that all succeed, of
  values shorter than \<open>2^32\<close> bytes, with no deletes or updates: the append \<open>j\<close> is
  assigned the key \<open>j\<close>, and \<open>get\<close> of that key returns the bytes appended for it up to
  their first zero byte; so it returns exactly the appended bytes when they hold no zero
  byte.
\<close>

theorem get_returns_appended_value:
  assumes run: "append_all cfg vs (log_store_init mem offs dels) = (Inr keys, s)"
    and len: "\<forall>v \<in> set vs. length v < 2 ^ 32"
    and j: "j < length vs"
  shows "keys ! j = of_nat j \<and>
         get cfg s (keys ! j) = Inr (Some (takeWhile (\<lambda>c. c \<noteq> NUL) (vs ! j))) \<and>
         (NUL \<notin> set (vs ! j) \<longrightarrow> get cfg s (keys ! j) = Inr (Some (vs ! j)))"
proof -
  from append_all_appended [OF appended_init len run]
  have inv: "appended cfg vs s" and keys: "keys = map of_nat [0 ..< length vs]"
    by simp_all
  from keys j have k: "keys ! j = of_nat j"
    by simp
  have g: "get cfg s (keys ! j) = Inr (Some (takeWhile (\<lambda>c. c \<noteq> NUL) (vs ! j)))"
    unfolding k using inv j by (rule appended_get)
  have "takeWhile (\<lambda>c. c \<noteq> NUL) (vs ! j) = vs ! j" if "NUL \<notin> set (vs ! j)"
    using that by (intro takeWhile_eq_all_conv [THEN iffD2]) auto
  with k g show ?thesis
    by simp
qed

lemma banana_run:
  "append_all default_cfg [''banana'', ''bandana''] empty_store = (Inr [0, 1], banana_store)"
  by (simp add: banana_store_def empty_store_def log_store_init_def default_cfg_def
      append_value_ok tail_numerals increment_tail_def KEY_INCR_def
      del: upt_Suc memcpy.simps)

text \<open>
  C3 (witness). The appends of \<open>banana\<close> and \<open>bandana\<close> succeed with the keys 0 and 1,
  and \<open>get(1)\<close> returns \<open>bandana\<close>.
\<close>

theorem get_returns_appended_value_witness:
  "append_all default_cfg [''banana'', ''bandana''] empty_store = (Inr [0, 1], banana_store) \<and>
   get default_cfg banana_store 1 = Inr (Some ''bandana'')"
proof -
  have len: "\<forall>v \<in> set [''banana'', ''bandana'']. length v < 2 ^ 32"
    by simp
  have j: "(1 :: nat) < length [''banana'', ''bandana'']"
    by simp
  from get_returns_appended_value [OF banana_run [unfolded empty_store_def] len j] banana_run
  show ?thesis
    by (simp add: NUL_def)
qed

text \<open>
  C3 (counterexample to the claim as stated). After the append of the three bytes
  \<open>a\<close>, zero, \<open>b\<close>, \<open>get(0)\<close> returns \<open>a\<close>: the copy loop of \<open>get\<close> stops at the
  zero byte.
\<close>

theorem get_stops_at_zero_byte:
  "get default_cfg (snd (append_value default_cfg [CHR ''a'', NUL, CHR ''b''] empty_store)) 0
     = Inr (Some ''a'') \<and>
   ''a'' \<noteq> [CHR ''a'', NUL, CHR ''b'']"
  by (simp add: empty_store_def log_store_init_def default_cfg_def append_value_ok
      tail_numerals increment_tail_def KEY_INCR_def get_def get_loop_eq log_bytes_def
      memcpy_apply upt_conv_Cons tail_key_def tail_off_def Let_def NUL_def
      del: upt_Suc memcpy.simps)

subsection \<open>Monotone offsets\<close>

lemma ngram_loop_error:
  "ngram_loop cfg log i bound idx = Inl e \<Longrightarrow> e = OutOfBounds"
proof (induction cfg log i bound idx rule: ngram_loop.induct)
  case (1 cfg log i bound idx)
  from "1.prems" show ?case
    by (subst (asm) ngram_loop.simps) (auto split: if_splits intro: "1.IH")
qed

lemma internal_append_cases:
  assumes "internal_append cfg v s = (r, s')"
  shows "write_tail s' = write_tail s + increment_tail (of_nat (length v)) \<and>
     read_tail s' = read_tail s \<and>
     (r = Inl StoreFull \<and>
        (MAX_KEYS cfg \<le> tail_key (write_tail s) \<or>
         LOG_SIZE cfg \<le> tail_off (write_tail s) + of_nat (length v)) \<and>
        value_offsets s' = value_offsets s
      \<or> r = Inl OutOfBounds
      \<or> r = Inr (write_tail s) \<and>
        tail_key (write_tail s) < MAX_KEYS cfg \<and>
        \<not> LOG_SIZE cfg \<le> tail_off (write_tail s) + of_nat (length v) \<and>
        value_offsets s' =
          (value_offsets s)(tail_key (write_tail s) := tail_off (write_tail s)))"
  using assms
  by (auto simp: internal_append_def atomic_advance_write_tail_def Let_def
      split: if_splits sum.splits dest: ngram_loop_error)

lemma append_value_cases:
  assumes "append_value cfg v s = (r, s')"
  shows "write_tail s' = write_tail s + increment_tail (of_nat (length v)) \<and>
     (r = Inl StoreFull \<and> read_tail s' = read_tail s \<and>
        (MAX_KEYS cfg \<le> tail_key (write_tail s) \<or>
         LOG_SIZE cfg \<le> tail_off (write_tail s) + of_nat (length v)) \<and>
        value_offsets s' = value_offsets s
      \<or> r = Inl OutOfBounds
      \<or> (\<exists>x. r = Inr x) \<and>
        read_tail s' = read_tail s + increment_tail (of_nat (length v)) \<and>
        tail_key (write_tail s) < MAX_KEYS cfg \<and>
        \<not> LOG_SIZE cfg \<le> tail_off (write_tail s) + of_nat (length v) \<and>
        value_offsets s' =
          (value_offsets s)(tail_key (write_tail s) := tail_off (write_tail s)))"
proof -
  obtain r1 s1 where ia: "internal_append cfg v s = (r1, s1)"
    by (cases "internal_append cfg v s")
  from internal_append_cases [OF ia] assms ia show ?thesis
    by (auto simp: append_value_def advance_read_tail_eq Let_def)
qed

lemma update_record_cases:
  assumes "update_record cfg k v s = (r, s')"
  shows "write_tail s' = write_tail s + increment_tail (of_nat (length v)) \<and>
     (r = Inl StoreFull \<and> read_tail s' = read_tail s \<and>
        (MAX_KEYS cfg \<le> tail_key (write_tail s) \<or>
         LOG_SIZE cfg \<le> tail_off (write_tail s) + of_nat (length v)) \<and>
        value_offsets s' = value_offsets s
      \<or> r = Inl OutOfBounds
      \<or> (\<exists>x. r = Inr x) \<and>
        read_tail s' = read_tail s + increment_tail (of_nat (length v)) \<and>
        tail_key (write_tail s) < MAX_KEYS cfg \<and>
        \<not> LOG_SIZE cfg \<le> tail_off (write_tail s) + of_nat (length v) \<and>
        value_offsets s' =
          (value_offsets s)(tail_key (write_tail s) := tail_off (write_tail s)))"
proof -
  obtain r1 s1 where ia: "internal_append cfg v s = (r1, s1)"
    by (cases "internal_append cfg v s")
  from internal_append_cases [OF ia] assms ia show ?thesis
    by (auto simp: update_record_def advance_read_tail_eq invalidate_key_def
        deleted_offsets_update_def Let_def split: if_splits)
qed

lemma delete_record_cases:
  assumes "delete_record cfg k s = (r, s')"
  shows "write_tail s' = write_tail s + DEL_INCR \<and>
     value_offsets s' = value_offsets s \<and>
     (read_tail s' = read_tail s \<or> read_tail s' = read_tail s + DEL_INCR) \<and>
     r \<noteq> Inl OutOfBounds"
  using assms
  by (auto simp: delete_record_def atomic_advance_write_tail_def advance_read_tail_eq
      invalidate_key_def deleted_offsets_update_def Let_def split: if_splits)

lemma tail_append_nat:
  assumes "unat (tail_off t) + unat l < 2 ^ 32" "unat (tail_key t) + 1 < 2 ^ 32"
  shows "unat (tail_key (t + increment_tail l)) = unat (tail_key t) + 1"
    and "unat (tail_off (t + increment_tail l)) = unat (tail_off t) + unat l"
  using assms by (simp_all add: tail_key_append tail_off_append unat_word_ariths)

lemma tail_delete_nat:
  assumes "unat (tail_off t) + 1 < 2 ^ 32"
  shows "unat (tail_key (t + DEL_INCR)) = unat (tail_key t)"
    and "unat (tail_off (t + DEL_INCR)) = unat (tail_off t) + 1"
  using assms by (simp_all add: tail_key_delete tail_off_delete unat_word_ariths)

lemma store_inv_full:
  assumes inv: "store_inv cfg s"
    and w: "write_tail s' = write_tail s + increment_tail l"
    and r: "read_tail s' = read_tail s"
    and v: "value_offsets s' = value_offsets s"
    and full: "MAX_KEYS cfg \<le> tail_key (write_tail s) \<or>
        LOG_SIZE cfg \<le> tail_off (write_tail s) + l"
    and nk: "unat (tail_key (write_tail s)) + 1 < 2 ^ 32"
    and nb: "unat (tail_off (write_tail s)) + unat l < 2 ^ 32"
  shows "store_inv cfg s'"
proof -
  note t = tail_append_nat [OF nb nk]
  from nb have "unat (tail_off (write_tail s) + l) = unat (tail_off (write_tail s)) + unat l"
    by (simp add: unat_word_ariths)
  with full have "unat (MAX_KEYS cfg) \<le> unat (tail_key (write_tail s)) \<or>
      unat (LOG_SIZE cfg) \<le> unat (tail_off (write_tail s)) + unat l"
    by (auto simp: word_le_nat_alt)
  with inv show ?thesis
    unfolding store_inv_def Let_def w r v t by (auto intro: le_trans trans_le_add1)
qed

lemma store_inv_delete:
  assumes inv: "store_inv cfg s"
    and w: "write_tail s' = write_tail s + DEL_INCR"
    and r: "read_tail s' = read_tail s \<or> read_tail s' = read_tail s + DEL_INCR"
    and v: "value_offsets s' = value_offsets s"
    and nb: "unat (tail_off (write_tail s)) + 1 < 2 ^ 32"
  shows "store_inv cfg s'"
proof -
  note t = tail_delete_nat [OF nb]
  from inv have "unat (tail_off (read_tail s)) \<le> unat (tail_off (write_tail s))"
    by (simp add: store_inv_def Let_def)
  with nb have "unat (tail_off (read_tail s)) + 1 < 2 ^ 32"
    by simp
  note u = tail_delete_nat [OF this]
  from r show ?thesis
  proof
    assume "read_tail s' = read_tail s"
    with inv show ?thesis
      unfolding store_inv_def Let_def w v t by (auto intro: le_trans trans_le_add1)
  next
    assume "read_tail s' = read_tail s + DEL_INCR"
    with inv show ?thesis
      unfolding store_inv_def Let_def w v t by (auto simp: u intro: le_trans trans_le_add1)
  qed
qed

lemma store_inv_append:
  assumes inv: "store_inv cfg s"
    and w: "write_tail s' = write_tail s + increment_tail l"
    and r: "read_tail s' = read_tail s + increment_tail l"
    and v: "value_offsets s' =
        (value_offsets s)(tail_key (write_tail s) := tail_off (write_tail s))"
    and k: "tail_key (write_tail s) < MAX_KEYS cfg"
    and f: "\<not> LOG_SIZE cfg \<le> tail_off (write_tail s) + l"
    and nk: "unat (tail_key (write_tail s)) + 1 < 2 ^ 32"
    and nb: "unat (tail_off (write_tail s)) + unat l < 2 ^ 32"
  shows "store_inv cfg s'"
proof -
  let ?wk = "unat (tail_key (write_tail s))" and ?wo = "unat (tail_off (write_tail s))"
  let ?rk = "unat (tail_key (read_tail s))" and ?ro = "unat (tail_off (read_tail s))"
  let ?O = "value_offsets s"
  note t = tail_append_nat [OF nb nk]
  from inv have i1: "?rk \<le> ?wk" and i2: "?ro \<le> ?wo"
    and i3: "?rk < ?wk \<longrightarrow> unat (MAX_KEYS cfg) < ?wk \<or> unat (LOG_SIZE cfg) \<le> ?wo"
    and i4: "\<forall>i j. unat i \<le> unat j \<and> unat j < ?rk \<longrightarrow> unat (?O i) \<le> unat (?O j)"
    and i5: "\<forall>i. unat i < ?rk \<longrightarrow> unat (?O i) \<le> ?wo"
    by (simp_all add: store_inv_def Let_def)
  from nb have "unat (tail_off (write_tail s) + l) = ?wo + unat l"
    by (simp add: unat_word_ariths)
  with f have "?wo + unat l < unat (LOG_SIZE cfg)"
    by (simp add: word_le_nat_alt)
  moreover from k have "?wk < unat (MAX_KEYS cfg)"
    by (simp add: word_less_nat_alt)
  ultimately have eq: "?rk = ?wk"
    using i1 i3 by auto
  from i2 nb have "?ro + unat l < 2 ^ 32"
    by simp
  moreover from eq nk have "?rk + 1 < 2 ^ 32"
    by simp
  ultimately have u: "unat (tail_key (read_tail s + increment_tail l)) = ?rk + 1"
    "unat (tail_off (read_tail s + increment_tail l)) = ?ro + unat l"
    by (rule tail_append_nat)+
  have key: "unat i = ?wk \<longleftrightarrow> i = tail_key (write_tail s)" for i
    by (auto simp: word_unat_eq_iff)
  have s4: "unat (value_offsets s' i) \<le> unat (value_offsets s' j)"
    if "unat i \<le> unat j \<and> unat j < ?rk + 1" for i j
  proof (cases "unat j = ?wk")
    case True
    show ?thesis
    proof (cases "unat i = ?wk")
      case eqi: True
      with True show ?thesis
        by (simp add: v key)
    next
      case False
      with that True have "unat i < ?rk"
        by (simp add: eq)
      with i5 have "unat (?O i) \<le> ?wo"
        by simp
      with True False show ?thesis
        by (simp add: v key)
    qed
  next
    case False
    with that eq have "unat j < ?rk" "unat i < ?rk"
      by simp_all
    with that i4 eq show ?thesis
      by (auto simp: v key [symmetric])
  qed
  have s5: "unat (value_offsets s' i) \<le> ?wo + unat l" if "unat i < ?rk + 1" for i
  proof (cases "unat i = ?wk")
    case True
    then show ?thesis
      by (simp add: v key)
  next
    case False
    with that eq have "unat i < ?rk"
      by simp
    with i5 False show ?thesis
      by (auto simp: v key [symmetric] intro: trans_le_add1)
  qed
  from i1 i2 eq s4 s5 show ?thesis
    unfolding store_inv_def Let_def w r t u by auto
qed

lemma store_inv_step:
  assumes inv: "store_inv cfg s"
    and nk: "unat (tail_key (write_tail s)) + op_keys x < 2 ^ 32"
    and nb: "unat (tail_off (write_tail s)) + op_bytes x < 2 ^ 32"
    and ap: "apply_op cfg x s = (r, s')"
    and ok: "r \<noteq> Some OutOfBounds"
  shows "store_inv cfg s' \<and>
     unat (tail_key (write_tail s')) = unat (tail_key (write_tail s)) + op_keys x \<and>
     unat (tail_off (write_tail s')) = unat (tail_off (write_tail s)) + op_bytes x"
proof (cases x)
  case (Append v)
  from nb Append have ul: "unat (of_nat (length v) :: u32) = length v"
    by (simp add: unat_of_nat)
  from nk nb Append have nk': "unat (tail_key (write_tail s)) + 1 < 2 ^ 32"
    and nb': "unat (tail_off (write_tail s)) + unat (of_nat (length v) :: u32) < 2 ^ 32"
    by (simp_all add: ul)
  from ap Append obtain r1 where a: "append_value cfg v s = (r1, s')" and r: "r = outcome r1"
    by (auto split: prod.splits)
  from append_value_cases [OF a] r ok
  have "store_inv cfg s'"
    by (auto simp: outcome_def intro: store_inv_full [OF inv _ _ _ _ nk' nb']
        store_inv_append [OF inv _ _ _ _ _ nk' nb'])
  moreover from append_value_cases [OF a]
  have "write_tail s' = write_tail s + increment_tail (of_nat (length v))"
    by simp
  ultimately show ?thesis
    using tail_append_nat [OF nb' nk'] Append by (simp add: ul)
next
  case (Delete k)
  from nb Delete have nb': "unat (tail_off (write_tail s)) + 1 < 2 ^ 32"
    by simp
  from ap Delete obtain r1 where a: "delete_record cfg k s = (r1, s')"
    by (auto split: prod.splits)
  from delete_record_cases [OF a]
  have "store_inv cfg s'"
    by (auto intro: store_inv_delete [OF inv _ _ _ nb'])
  moreover from delete_record_cases [OF a]
  have "write_tail s' = write_tail s + DEL_INCR"
    by simp
  ultimately show ?thesis
    using tail_delete_nat [OF nb'] Delete by simp
next
  case (Update k v)
  from nb Update have ul: "unat (of_nat (length v) :: u32) = length v"
    by (simp add: unat_of_nat)
  from nk nb Update have nk': "unat (tail_key (write_tail s)) + 1 < 2 ^ 32"
    and nb': "unat (tail_off (write_tail s)) + unat (of_nat (length v) :: u32) < 2 ^ 32"
    by (simp_all add: ul)
  from ap Update obtain r1 where a: "update_record cfg k v s = (r1, s')" and r: "r = outcome r1"
    by (auto split: prod.splits)
  from update_record_cases [OF a] r ok
  have "store_inv cfg s'"
    by (auto simp: outcome_def intro: store_inv_full [OF inv _ _ _ _ nk' nb']
        store_inv_append [OF inv _ _ _ _ _ nk' nb'])
  moreover from update_record_cases [OF a]
  have "write_tail s' = write_tail s + increment_tail (of_nat (length v))"
    by simp
  ultimately show ?thesis
    using tail_append_nat [OF nb' nk'] Update by (simp add: ul)
qed

lemma run_store_inv:
  assumes "store_inv cfg s"
    and "unat (tail_key (write_tail s)) + claimed_keys ops < 2 ^ 32"
    and "unat (tail_off (write_tail s)) + claimed_bytes ops < 2 ^ 32"
    and "run cfg ops s = Some s'"
  shows "store_inv cfg s' \<and>
     unat (tail_key (write_tail s')) = unat (tail_key (write_tail s)) + claimed_keys ops \<and>
     unat (tail_off (write_tail s')) = unat (tail_off (write_tail s)) + claimed_bytes ops"
  using assms
proof (induction ops arbitrary: s)
  case Nil
  then show ?case
    by (simp add: claimed_keys_def claimed_bytes_def)
next
  case (Cons x xs)
  obtain r s1 where ap: "apply_op cfg x s = (r, s1)"
    by (cases "apply_op cfg x s")
  with Cons.prems(4) have ok: "r \<noteq> Some OutOfBounds" and rest: "run cfg xs s1 = Some s'"
    by (auto split: option.splits error.splits)
  from Cons.prems(2,3) have nk: "unat (tail_key (write_tail s)) + op_keys x < 2 ^ 32"
    and nb: "unat (tail_off (write_tail s)) + op_bytes x < 2 ^ 32"
    by (simp_all add: claimed_keys_def claimed_bytes_def)
  from store_inv_step [OF Cons.prems(1) nk nb ap ok]
  have inv1: "store_inv cfg s1"
    and k1: "unat (tail_key (write_tail s1)) = unat (tail_key (write_tail s)) + op_keys x"
    and b1: "unat (tail_off (write_tail s1)) = unat (tail_off (write_tail s)) + op_bytes x"
    by simp_all
  from Cons.prems(2,3) k1 b1
  have "unat (tail_key (write_tail s1)) + claimed_keys xs < 2 ^ 32"
    and "unat (tail_off (write_tail s1)) + claimed_bytes xs < 2 ^ 32"
    by (simp_all add: claimed_keys_def claimed_bytes_def)
  from Cons.IH [OF inv1 this rest] k1 b1 show ?case
    by (simp add: claimed_keys_def claimed_bytes_def)
qed

lemma store_inv_init: "store_inv cfg (log_store_init mem offs dels)"
  by (simp add: store_inv_def log_store_init_def tail_numerals)

text \<open>
  C9 (as amended). In every state that a run of appends, deletes and updates reaches
  from a new store, as long as the run claims fewer than \<open>2^32\<close> keys and fewer than
  \<open>2^32\<close> bytes (neither field of the write tail overflows; operations may fail with
  \<open>StoreFull\<close>): for every key \<open>i\<close> with \<open>i + 1 < num_keys\<close>, \<open>O[i] \<le> O[i+1]\<close>; and the
  write tail holds the number of keys and of bytes claimed, both handed out by the one
  fetch-and-add.
\<close>

theorem offsets_monotone:
  assumes run: "run cfg ops (log_store_init mem offs dels) = Some s"
    and keys: "claimed_keys ops < 2 ^ 32"
    and bytes: "claimed_bytes ops < 2 ^ 32"
  shows "(\<forall>i. unat i + 1 < unat (get_num_keys s) \<longrightarrow>
            value_offsets s i \<le> value_offsets s (i + 1)) \<and>
         unat (tail_key (write_tail s)) = claimed_keys ops \<and>
         unat (tail_off (write_tail s)) = claimed_bytes ops"
proof -
  have "store_inv cfg s \<and>
     unat (tail_key (write_tail s)) =
       unat (tail_key (write_tail (log_store_init mem offs dels))) + claimed_keys ops \<and>
     unat (tail_off (write_tail s)) =
       unat (tail_off (write_tail (log_store_init mem offs dels))) + claimed_bytes ops"
    using keys bytes
    by (intro run_store_inv [OF store_inv_init _ _ run])
       (simp_all add: log_store_init_def tail_numerals)
  then have inv: "store_inv cfg s"
    and k: "unat (tail_key (write_tail s)) = claimed_keys ops"
    and b: "unat (tail_off (write_tail s)) = claimed_bytes ops"
    by (simp_all add: log_store_init_def tail_numerals)
  have "value_offsets s i \<le> value_offsets s (i + 1)"
    if "unat i + 1 < unat (get_num_keys s)" for i
  proof -
    from that unat_u32_less [of "get_num_keys s"] have "unat (i + 1) = unat i + 1"
      by (simp add: unat_word_ariths)
    with that inv show ?thesis
      by (simp add: store_inv_def Let_def get_num_keys_def word_le_nat_alt)
  qed
  with k b show ?thesis
    by simp
qed

lemma banana_delete_run:
  "run default_cfg [Append ''banana'', Append ''bandana'', Delete 0] empty_store =
     Some (snd (delete_record default_cfg 0 banana_store))"
  by (simp add: banana_store_def empty_store_def log_store_init_def default_cfg_def
      append_value_ok tail_numerals increment_tail_def KEY_INCR_def outcome_def
      delete_record_def atomic_advance_write_tail_def invalidate_key_def
      deleted_offsets_update_def advance_read_tail_eq DEL_INCR_def Let_def
      del: upt_Suc memcpy.simps)

text \<open>
  C9 (witness). The run that appends \<open>banana\<close> and \<open>bandana\<close> and deletes key 0 ends
  with two keys, the offsets 0 and 6, and the write tail at key 2 and offset 14.
\<close>

theorem offsets_monotone_witness:
  "\<exists>s. run default_cfg [Append ''banana'', Append ''bandana'', Delete 0] empty_store = Some s \<and>
       get_num_keys s = 2 \<and>
       value_offsets s 0 \<le> value_offsets s (0 + 1) \<and>
       unat (tail_key (write_tail s)) = 2 \<and> unat (tail_off (write_tail s)) = 14"
proof -
  let ?ops = "[Append ''banana'', Append ''bandana'', Delete 0]"
  let ?s = "snd (delete_record default_cfg 0 banana_store)"
  have n: "get_num_keys ?s = 2"
    by (simp add: banana_store_eq delete_record_def default_cfg_def
        atomic_advance_write_tail_def invalidate_key_def deleted_offsets_update_def
        advance_read_tail_eq tail_numerals DEL_INCR_def get_num_keys_def Let_def)
  have k: "claimed_keys ?ops < 2 ^ 32" and b: "claimed_bytes ?ops < 2 ^ 32"
    by (simp_all add: claimed_keys_def claimed_bytes_def)
  from offsets_monotone [OF banana_delete_run [unfolded empty_store_def] k b]
  have m: "\<forall>i. unat i + 1 < unat (get_num_keys ?s) \<longrightarrow>
      value_offsets ?s i \<le> value_offsets ?s (i + 1)"
    and t: "unat (tail_key (write_tail ?s)) = claimed_keys ?ops"
      "unat (tail_off (write_tail ?s)) = claimed_bytes ?ops"
    by simp_all
  from m n have "value_offsets ?s 0 \<le> value_offsets ?s (0 + 1)"
    by (simp del: add_0)
  with banana_delete_run n t show ?thesis
    by (simp add: claimed_keys_def claimed_bytes_def)
qed

text \<open>
  C9 (counterexample to the claim as stated). With a log of 16 bytes: two appends fill
  13 bytes; the append of a value of \<open>2^32 - 14\<close> bytes throws, but has moved the write
  tail's offset to \<open>2^32 - 1\<close>; the byte that a delete claims carries into the key
  field and leaves the offset at 0; the next append succeeds with key 4. Three keys are
  then readable, and key 2, whose append threw, has no offset: \<open>O[1] = 10\<close> is above
  \<open>O[2] = 0\<close>.
\<close>

theorem offsets_not_monotone_after_overflow:
  "(case run boundary_cfg
           [Append ''abcdefghij'', Append ''klm'', Append (replicate 4294967282 (CHR ''x'')),
            Delete 0, Append ''abc''] empty_store of
      None \<Rightarrow> False
    | Some s \<Rightarrow> get_num_keys s = 3 \<and> value_offsets s 1 = 10 \<and> value_offsets s (1 + 1) = 0 \<and>
        \<not> value_offsets s 1 \<le> value_offsets s (1 + 1))"
  by (simp add: empty_store_def log_store_init_def boundary_cfg_def
      append_value_ok append_value_full tail_key_def tail_off_def increment_tail_def KEY_INCR_def
      outcome_def delete_record_def atomic_advance_write_tail_def invalidate_key_def
      deleted_offsets_update_def advance_read_tail_eq DEL_INCR_def get_num_keys_def Let_def
      del: upt_Suc memcpy.simps)

subsection \<open>Search with a query of one gram\<close>






subsection \<open>Offset to key resolution\<close>

lemma midpoint:
  fixes lo hi :: u32
  assumes lt: "lo < hi"
  shows "lo \<le> lo + (hi - lo) div 2" "lo + (hi - lo) div 2 < hi"
proof -
  let ?mid = "lo + (hi - lo) div 2"
  from lt have "lo \<le> hi"
    by simp
  then have d: "unat ((hi - lo) div 2) = (unat hi - unat lo) div 2"
    by (simp add: unat_div unat_sub)
  from lt have l: "unat lo < unat hi"
    by (simp add: word_less_nat_alt)
  from l unat_u32_less [of hi] have "unat lo + (unat hi - unat lo) div 2 < 2 ^ LENGTH(32)"
    by simp
  then have m: "unat ?mid = unat lo + (unat hi - unat lo) div 2"
    using d by (simp add: unat_add_lem [THEN iffD1])
  then show "lo \<le> ?mid"
    by (simp add: word_le_nat_alt)
  from m l have "unat ?mid < unat hi"
    by linarith
  then show "?mid < hi"
    by (simp add: word_less_nat_alt)
qed

lemma less_succ_iff:
  fixes i m hi :: u32
  assumes "m < hi"
  shows "i < m + 1 \<longleftrightarrow> i \<le> m"
  using assms unat_succ [OF assms] by (auto simp: word_less_nat_alt word_le_nat_alt)

lemma adjacent_sorted:
  fixes offs :: "u32 \<Rightarrow> u32" and n :: u32
  assumes adj: "\<forall>i. unat i + 1 < unat n \<longrightarrow> offs i \<le> offs (i + 1)"
  shows "\<forall>i j. i \<le> j \<and> j < n \<longrightarrow> offs i \<le> offs j"
proof -
  have up: "offs i \<le> offs (of_nat m)" if "unat i \<le> m" "m < unat n" for i m
    using that
  proof (induction m)
    case 0
    then have "i = 0"
      by (simp add: unat_eq_zero)
    then show ?case
      by simp
  next
    case (Suc m)
    show ?case
    proof (cases "unat i = Suc m")
      case True
      then have "of_nat (Suc m) = i"
        by (metis of_nat_unat_u32)
      then show ?thesis
        by simp
    next
      case False
      with Suc.prems have le: "unat i \<le> m" and lt: "m < unat n"
        by simp_all
      from Suc.prems unat_u32_less [of n] have um: "unat (of_nat m :: u32) = m"
        by (simp add: unat_of_nat_u32)
      with Suc.prems adj have "offs (of_nat m) \<le> offs (of_nat m + 1)"
        by simp
      with Suc.IH [OF le lt] show ?thesis
        by (simp add: add.commute)
    qed
  qed
  show ?thesis
  proof (intro allI impI)
    fix i j :: u32
    assume "i \<le> j \<and> j < n"
    then have "unat i \<le> unat j" "unat j < unat n"
      by (simp_all add: word_le_nat_alt word_less_nat_alt)
    from up [OF this] show "offs i \<le> offs j"
      by simp
  qed
qed

lemma key_search_partition:
  assumes "\<forall>i j. i \<le> j \<and> j < n \<longrightarrow> offs i \<le> offs j"
    and "lo \<le> hi" "hi \<le> n"
    and "\<forall>i. i < lo \<longrightarrow> offs i \<le> offset"
    and "\<forall>i. hi \<le> i \<and> i < n \<longrightarrow> offset < offs i"
  shows "key_search offs offset lo hi \<le> n \<and>
         (\<forall>i. i < key_search offs offset lo hi \<longrightarrow> offs i \<le> offset) \<and>
         (\<forall>i. key_search offs offset lo hi \<le> i \<and> i < n \<longrightarrow> offset < offs i)"
  using assms
proof (induction offs offset lo hi rule: key_search.induct)
  case (1 offs offset lo hi)
  show ?case
  proof (cases "lo < hi")
    case False
    with "1.prems" have "lo = hi"
      by simp
    with "1.prems" False show ?thesis
      by (subst (1 2 3) key_search.simps) simp
  next
    case True
    let ?mid = "lo + (hi - lo) div 2"
    note mid = midpoint [OF True]
    show ?thesis
    proof (cases "offs ?mid \<le> offset")
      case le: True
      have a: "?mid + 1 \<le> hi"
        using mid(2) unat_succ [OF mid(2)] by (simp add: word_less_nat_alt word_le_nat_alt)
      have b: "\<forall>i. i < ?mid + 1 \<longrightarrow> offs i \<le> offset"
      proof (intro allI impI)
        fix i assume "i < ?mid + 1"
        then have "i \<le> ?mid"
          by (simp add: less_succ_iff [OF mid(2)])
        moreover have "?mid < n"
          using mid(2) "1.prems"(3) by simp
        ultimately have "offs i \<le> offs ?mid"
          using "1.prems"(1) by blast
        with le show "offs i \<le> offset"
          by simp
      qed
      have "key_search offs offset lo hi = key_search offs offset (?mid + 1) hi"
        using True le by (subst key_search.simps) (simp add: Let_def)
      with "1.IH"(1) [OF True refl refl le "1.prems"(1) a "1.prems"(3) b "1.prems"(5)]
      show ?thesis by simp
    next
      case gt: False
      have a: "lo \<le> ?mid" "?mid \<le> n"
        using mid "1.prems"(3) by simp_all
      have b: "\<forall>i. ?mid \<le> i \<and> i < n \<longrightarrow> offset < offs i"
      proof (intro allI impI)
        fix i assume i: "?mid \<le> i \<and> i < n"
        with "1.prems"(1) have "offs ?mid \<le> offs i"
          by blast
        with gt show "offset < offs i"
          by simp
      qed
      have "key_search offs offset lo hi = key_search offs offset lo ?mid"
        using True gt by (subst key_search.simps) (simp add: Let_def)
      with "1.IH"(2) [OF True refl refl gt "1.prems"(1) a "1.prems"(4) b]
      show ?thesis by simp
    qed
  qed
qed

text \<open>
  C6 (as amended). For a snapshot \<open>(max_key, max_off)\<close> of a store whose offsets are
  monotone (\<open>O[i] \<le> O[i+1]\<close> for \<open>i + 1 < max_key\<close>, the invariant of C9), with at least
  one key and \<open>O[0] \<le> o\<close>: \<open>find_and_insert_key\<close> finds the greatest key \<open>i\<close> below
  \<open>max_key\<close> with \<open>O[i] \<le> o\<close>; it leaves the result set as it is exactly when
  \<open>D[i] \<noteq> 0\<close> and \<open>max_off \<ge> D[i]\<close>, and inserts \<open>i\<close> otherwise.
\<close>

theorem find_and_insert_key_resolves:
  assumes keys: "0 < max_key"
    and first: "value_offsets s 0 \<le> offset"
    and mono: "\<forall>i. unat i + 1 < unat max_key \<longrightarrow>
        value_offsets s i \<le> value_offsets s (i + 1)"
  shows "\<exists>i. i < max_key \<and> value_offsets s i \<le> offset \<and>
           (\<forall>j. j < max_key \<and> value_offsets s j \<le> offset \<longrightarrow> j \<le> i) \<and>
           find_and_insert_key s keys offset max_key max_off =
             (if deleted s i \<noteq> 0 \<and> deleted s i \<le> max_off then keys
              else insert (uint i) keys)"
proof -
  let ?r = "key_search (value_offsets s) offset 0 max_key"
  from mono
  have sorted: "\<forall>i j. i \<le> j \<and> j < max_key \<longrightarrow> value_offsets s i \<le> value_offsets s j"
    by (rule adjacent_sorted)
  have p: "?r \<le> max_key \<and> (\<forall>i. i < ?r \<longrightarrow> value_offsets s i \<le> offset) \<and>
      (\<forall>i. ?r \<le> i \<and> i < max_key \<longrightarrow> offset < value_offsets s i)"
    using sorted by (intro key_search_partition) auto
  have "?r \<noteq> 0"
  proof
    assume "?r = 0"
    with p keys have "offset < value_offsets s 0"
      by simp
    with first show False
      by simp
  qed
  then have r: "?r - 1 < ?r"
    by (simp add: word_less_nat_alt unat_minus_one unat_gt_0 [symmetric])
  have g: "j \<le> ?r - 1" if "j < max_key \<and> value_offsets s j \<le> offset" for j
  proof (rule ccontr)
    assume "\<not> j \<le> ?r - 1"
    then have "?r \<le> j"
      using \<open>?r \<noteq> 0\<close> by unat_arith
    with p that have "offset < value_offsets s j"
      by blast
    with that show False
      by auto
  qed
  show ?thesis
  proof (intro exI [of _ "?r - 1"] conjI)
    from r p show "?r - 1 < max_key"
      by auto
    from r p show "value_offsets s (?r - 1) \<le> offset"
      by blast
    from g show "\<forall>j. j < max_key \<and> value_offsets s j \<le> offset \<longrightarrow> j \<le> ?r - 1"
      by blast
    show "find_and_insert_key s keys offset max_key max_off =
        (if deleted s (?r - 1) \<noteq> 0 \<and> deleted s (?r - 1) \<le> max_off then keys
         else insert (uint (?r - 1)) keys)"
      by (simp add: find_and_insert_key_def Let_def)
  qed
qed

text \<open>
  C6 (witness). In the store holding \<open>banana\<close> at offset 0 and \<open>bandana\<close> at offset 6,
  the offset 10 resolves to key 1, which is live and is inserted.
\<close>

theorem find_and_insert_key_resolves_witness:
  "(\<exists>i. i < 2 \<and> value_offsets banana_store i \<le> 10 \<and>
      (\<forall>j. j < 2 \<and> value_offsets banana_store j \<le> 10 \<longrightarrow> j \<le> i) \<and>
      find_and_insert_key banana_store {} 10 2 13 =
        (if deleted banana_store i \<noteq> 0 \<and> deleted banana_store i \<le> 13 then {}
         else insert (uint i) {})) \<and>
   find_and_insert_key banana_store {} 10 2 13 = {1}"
proof -
  have s: "\<forall>i. unat i + 1 < unat (2 :: u32) \<longrightarrow>
      value_offsets banana_store i \<le> value_offsets banana_store (i + 1)"
  proof (intro allI impI)
    fix i :: u32
    assume "unat i + 1 < unat (2 :: u32)"
    then have "i = 0"
      by (simp add: unat_eq_zero)
    then show "value_offsets banana_store i \<le> value_offsets banana_store (i + 1)"
      by (simp add: banana_store_eq)
  qed
  have f: "value_offsets banana_store 0 \<le> 10"
    by (simp add: banana_store_eq)
  have v: "find_and_insert_key banana_store {} 10 2 13 = {1}"
    by (simp add: banana_store_eq find_and_insert_key_def key_search.simps Let_def)
  have "0 < (2 :: u32)"
    by simp
  from find_and_insert_key_resolves [OF this f s] v show ?thesis
    by blast
qed

text \<open>
  C6 (counterexample to the claim as stated). In the store that the overflowing run of
  C9 reaches, three keys are readable and the offsets are 0, 10 and 0. For the offset 3
  the claim's conditions hold (\<open>O[0] \<le> 3\<close>), and the binary search ends at key 0, which
  is inserted; but key 2 is below \<open>max_key\<close> and has \<open>O[2] \<le> 3\<close>, so key 0 is not the
  greatest such key.
\<close>

theorem find_and_insert_key_unsorted_table:
  "(case run boundary_cfg
           [Append ''abcdefghij'', Append ''klm'', Append (replicate 4294967282 (CHR ''x'')),
            Delete 0, Append ''abc''] empty_store of
      None \<Rightarrow> False
    | Some s \<Rightarrow>
        tail_key (read_tail s) = 3 \<and> value_offsets s 0 \<le> 3 \<and>
        find_and_insert_key s {} 3 (tail_key (read_tail s)) (tail_off (read_tail s)) = {0} \<and>
        (2 :: u32) < 3 \<and> value_offsets s 2 \<le> 3 \<and> \<not> (2 :: u32) \<le> 0)"
  by (simp add: empty_store_def log_store_init_def boundary_cfg_def
      append_value_ok append_value_full tail_key_def tail_off_def increment_tail_def KEY_INCR_def
      outcome_def delete_record_def atomic_advance_write_tail_def invalidate_key_def
      deleted_offsets_update_def advance_read_tail_eq DEL_INCR_def Let_def
      find_and_insert_key_def key_search.simps
      del: upt_Suc memcpy.simps)

subsection \<open>The versioned aggregate\<close>

text \<open>
  C7 (the code at the failing input). An aggregate of two lists whose list 0 received
  \<open>seq_update(10)\<close> at version 0 holds one node, of version 0. \<open>get(0)\<close> finds it, but
  \<open>get(1)\<close> returns zero and not 10: \<open>get_node\<close> starts with \<open>max_version = 0\<close> and
  keeps a node only if its version is above \<open>max_version\<close>, so a node of version 0 is
  found by an exact match only.
\<close>

theorem get_node_misses_version_zero:
  "(case aggregate_seq_update 0 10 0 (aggregate_init sum_aggregator 2) of
      Inl e \<Rightarrow> False
    | Inr a \<Rightarrow> aggregate_get a 0 = 10 \<and> aggregate_get a 1 = 0)"
  by code_simp

end
